theory Spec2Isabelle
  imports Main "HOL-Library.Word" "HOL-Library.Multiset" "HOL-Library.Sublist"
    "HOL-Library.Product_Lexorder"
begin

section \<open>Huffman nodes and their ordering\<close>

text \<open>
  A file is a sequence of bytes. Iterating over Python \<open>bytes\<close> yields integers in
  \<open>range(256)\<close>; those integers (dictionary keys, node labels, counts) are naturals.
\<close>

type_synonym byte = "8 word"

text \<open>
  \<open>class HuffmanNode\<close>: \<open>char\<close> is a byte value or \<open>None\<close> for a merged node,
  \<open>left\<close> and \<open>right\<close> are nodes or \<open>None\<close>.
\<close>

datatype HuffmanNode =
  HuffmanNode (char: "nat option") (freq: nat)
    (left: "HuffmanNode option") (right: "HuffmanNode option")

text \<open>\<open>HuffmanNode.__lt__\<close>.\<close>

definition lt :: "HuffmanNode \<Rightarrow> HuffmanNode \<Rightarrow> bool" where
  "lt self other =
     (let self_val = (case char self of Some c \<Rightarrow> c | None \<Rightarrow> 256);
          other_val = (case char other of Some c \<Rightarrow> c | None \<Rightarrow> 256)
      in if freq self = freq other then self_val < other_val
         else freq self < freq other)"

section \<open>The binary heap of the standard library\<close>

text \<open>
  \<open>build_huffman_tree\<close> keeps its nodes in a list ordered by \<open>heapq\<close>, which compares
  elements with \<open>__lt__\<close> only. The functions below follow \<open>heapq\<close> of CPython:
  \<open>_siftdown\<close>, \<open>_siftup\<close>, \<open>heappush\<close>, \<open>heappop\<close> and \<open>heapify\<close>, each loop
  a recursive function over the list and the positions it updates.
\<close>

type_synonym heap = "HuffmanNode list"

text \<open>
  The loop of \<open>_siftdown(heap, startpos, pos)\<close>: parents that are greater than
  \<open>newitem\<close> move down; it returns the list and the position left free.
\<close>

function siftdown_loop :: "heap \<Rightarrow> HuffmanNode \<Rightarrow> nat \<Rightarrow> nat \<Rightarrow> heap \<times> nat" where
  "siftdown_loop heap newitem startpos pos =
     (if pos > startpos then
        (let parentpos = (pos - 1) div 2;
             parent = heap ! parentpos
         in if lt newitem parent
            then siftdown_loop (heap[pos := parent]) newitem startpos parentpos
            else (heap, pos))
      else (heap, pos))"
  by pat_completeness auto

termination
  by (relation "measure (\<lambda>(heap, newitem, startpos, pos). pos)") auto

definition siftdown :: "heap \<Rightarrow> nat \<Rightarrow> nat \<Rightarrow> heap" where
  "siftdown heap startpos pos =
     (let newitem = heap ! pos;
          (heap', pos') = siftdown_loop heap newitem startpos pos
      in heap'[pos' := newitem])"

text \<open>
  The loop of \<open>_siftup(heap, pos)\<close>: the smaller child moves up until a leaf position
  is reached; it returns the list and that position.
\<close>

function siftup_loop :: "heap \<Rightarrow> nat \<Rightarrow> heap \<times> nat" where
  "siftup_loop heap pos =
     (let endpos = length heap;
          childpos = 2 * pos + 1
      in if childpos < endpos then
           (let rightpos = childpos + 1;
                childpos' = (if rightpos < endpos \<and> \<not> lt (heap ! childpos) (heap ! rightpos)
                             then rightpos else childpos)
            in siftup_loop (heap[pos := heap ! childpos']) childpos')
         else (heap, pos))"
  by pat_completeness auto

termination
  by (relation "measure (\<lambda>(heap, pos). length heap - pos)") auto

definition siftup :: "heap \<Rightarrow> nat \<Rightarrow> heap" where
  "siftup heap pos =
     (let newitem = heap ! pos;
          (heap', pos') = siftup_loop heap pos
      in siftdown (heap'[pos' := newitem]) pos pos')"

text \<open>\<open>heappush\<close>: append, then sift the new last element towards the root.\<close>

definition heappush :: "heap \<Rightarrow> HuffmanNode \<Rightarrow> heap" where
  "heappush heap item = siftdown (heap @ [item]) 0 (length heap)"

text \<open>
  \<open>heappop\<close>: \<open>heap.pop()\<close> raises \<open>IndexError\<close> on an empty list (\<open>None\<close> here);
  otherwise the root is returned and the last element sifted in from the root.
\<close>

definition heappop :: "heap \<Rightarrow> (HuffmanNode \<times> heap) option" where
  "heappop heap =
     (if heap = [] then None
      else (let lastelt = last heap;
                heap' = butlast heap
            in if heap' \<noteq> [] then Some (heap' ! 0, siftup (heap'[0 := lastelt]) 0)
               else Some (lastelt, heap')))"

text \<open>\<open>heapify\<close>: \<open>_siftup\<close> at the positions \<open>n//2 - 1\<close> down to \<open>0\<close>.\<close>

definition heapify :: "heap \<Rightarrow> heap" where
  "heapify x = fold (\<lambda>i h. siftup h i) (rev [0..<length x div 2]) x"

declare siftdown_loop.simps [simp del]

declare siftup_loop.simps [simp del]

text \<open>One iteration of each loop, as conditional equations.\<close>

lemma siftdown_loop_step:
  "startpos < pos \<Longrightarrow> lt newitem (heap ! ((pos - 1) div 2)) \<Longrightarrow>
     siftdown_loop heap newitem startpos pos =
       siftdown_loop (heap[pos := heap ! ((pos - 1) div 2)]) newitem startpos ((pos - 1) div 2)"
  by (subst siftdown_loop.simps) (simp add: Let_def)

lemma siftdown_loop_stop:
  "\<not> (startpos < pos \<and> lt newitem (heap ! ((pos - 1) div 2))) \<Longrightarrow>
     siftdown_loop heap newitem startpos pos = (heap, pos)"
  by (subst siftdown_loop.simps) (auto simp: Let_def)

text \<open>The child position that the loop of \<open>_siftup\<close> moves to.\<close>

definition smaller_child :: "heap \<Rightarrow> nat \<Rightarrow> nat" where
  "smaller_child heap pos =
     (if 2 * pos + 2 < length heap \<and> \<not> lt (heap ! (2 * pos + 1)) (heap ! (2 * pos + 2))
      then 2 * pos + 2 else 2 * pos + 1)"

lemma siftup_loop_step:
  "2 * pos + 1 < length heap \<Longrightarrow>
     siftup_loop heap pos =
       siftup_loop (heap[pos := heap ! smaller_child heap pos]) (smaller_child heap pos)"
  by (subst siftup_loop.simps) (simp add: Let_def smaller_child_def)

lemma siftup_loop_stop:
  "\<not> 2 * pos + 1 < length heap \<Longrightarrow> siftup_loop heap pos = (heap, pos)"
  by (subst siftup_loop.simps) (simp add: Let_def)

lemma smaller_child_bounds:
  "2 * pos + 1 < length heap \<Longrightarrow>
     pos < smaller_child heap pos \<and> smaller_child heap pos < length heap"
  by (simp add: smaller_child_def)

lemma siftdown_loop_length:
  "siftdown_loop heap newitem startpos pos = (heap', pos') \<Longrightarrow>
     length heap' = length heap \<and> pos' \<le> pos"
proof (induction heap newitem startpos pos rule: siftdown_loop.induct)
  case (1 heap newitem startpos pos)
  show ?case
  proof (cases "startpos < pos \<and> lt newitem (heap ! ((pos - 1) div 2))")
    case True
    then have "siftdown_loop (heap[pos := heap ! ((pos - 1) div 2)]) newitem startpos
                 ((pos - 1) div 2) = (heap', pos')"
      using "1.prems" by (simp add: siftdown_loop_step)
    with "1.IH" True
    have "length heap' = length (heap[pos := heap ! ((pos - 1) div 2)]) \<and> pos' \<le> (pos - 1) div 2"
      by blast
    moreover have "(pos - 1) div 2 \<le> pos" by arith
    ultimately show ?thesis by simp
  next
    case False
    then have "(heap', pos') = (heap, pos)"
      using "1.prems" by (simp add: siftdown_loop_stop)
    then show ?thesis by simp
  qed
qed

lemma siftdown_length [simp]: "length (siftdown heap startpos pos) = length heap"
  by (auto simp: siftdown_def Let_def split: prod.splits dest: siftdown_loop_length)

lemma siftup_loop_length:
  "siftup_loop heap pos = (heap', pos') \<Longrightarrow>
     length heap' = length heap \<and> pos \<le> pos' \<and> (pos < length heap \<longrightarrow> pos' < length heap)"
proof (induction heap pos rule: siftup_loop.induct)
  case (1 heap pos)
  show ?case
  proof (cases "2 * pos + 1 < length heap")
    case True
    let ?c = "smaller_child heap pos"
    have "siftup_loop (heap[pos := heap ! ?c]) ?c = (heap', pos')"
      using "1.prems" True by (simp add: siftup_loop_step)
    moreover have "?c = (if 2 * pos + 1 + 1 < length heap \<and>
        \<not> lt (heap ! (2 * pos + 1)) (heap ! (2 * pos + 1 + 1)) then 2 * pos + 1 + 1 else 2 * pos + 1)"
      by (simp add: smaller_child_def)
    ultimately
    have "length heap' = length (heap[pos := heap ! ?c]) \<and> ?c \<le> pos' \<and>
          (?c < length (heap[pos := heap ! ?c]) \<longrightarrow> pos' < length (heap[pos := heap ! ?c]))"
      using "1.IH" [OF refl refl True refl refl] by simp
    with smaller_child_bounds [OF True] show ?thesis by simp
  next
    case False
    then have "(heap', pos') = (heap, pos)"
      using "1.prems" by (simp add: siftup_loop_stop)
    then show ?thesis by simp
  qed
qed

lemma siftup_length [simp]: "length (siftup heap pos) = length heap"
  by (auto simp: siftup_def Let_def split: prod.splits dest: siftup_loop_length)

lemma heappush_length [simp]: "length (heappush heap item) = Suc (length heap)"
  by (simp add: heappush_def)

lemma heappop_length:
  "heappop heap = Some (item, heap') \<Longrightarrow> length heap = Suc (length heap')"
  by (cases heap rule: rev_cases) (auto simp: heappop_def Let_def split: if_splits)

section \<open>Frequency table and tree construction\<close>

text \<open>
  What a run can report. The first four are the messages the program prints before it
  returns: the input path is not a file (\<open>validate_file_path\<close>), "Cannot compress an
  empty file", "Invalid Huffman data", and an \<open>IOError\<close> caught around the writing of
  the output. The others are Python exceptions of that name; \<open>decompress\<close> catches
  \<open>ValueError\<close> and prints it, the rest leave \<open>compress\<close> and \<open>decompress\<close> uncaught.
\<close>

datatype error = FileNotFound | EmptyInput | InvalidContainer | IoFailure
  | OverflowError | AttributeError | IndexError | KeyError | ValueError

text \<open>
  A dictionary with integer keys and values, as the list of its items in insertion
  order. \<open>dict_incr\<close> is \<open>frequency[byte] += 1\<close> on a \<open>defaultdict(int)\<close>: a
  missing key is inserted (last) with \<open>0 + 1\<close>. \<open>dict_get\<close> is \<open>frequency.get(k, d)\<close>.
\<close>

type_synonym dict = "(nat \<times> nat) list"

fun dict_incr :: "dict \<Rightarrow> nat \<Rightarrow> dict" where
  "dict_incr [] k = [(k, 1)]"
| "dict_incr ((k', v) # d) k =
     (if k' = k then (k', v + 1) # d else (k', v) # dict_incr d k)"

definition dict_get :: "dict \<Rightarrow> nat \<Rightarrow> nat \<Rightarrow> nat" where
  "dict_get d k dflt = (case map_of d k of Some v \<Rightarrow> v | None \<Rightarrow> dflt)"

definition build_frequency_table :: "byte list \<Rightarrow> dict" where
  "build_frequency_table data =
     fold (\<lambda>byte frequency. dict_incr frequency (unat byte)) data []"

text \<open>
  The loop of \<open>build_huffman_tree\<close>: while more than one node is left, pop two, merge
  them and push the merged node. \<open>None\<close> is the \<open>IndexError\<close> of a pop from an empty
  list.
\<close>

function build_loop :: "heap \<Rightarrow> heap option" where
  "build_loop nodes =
     (if length nodes > 1 then
        (case heappop nodes of
           None \<Rightarrow> None
         | Some (lft, nodes1) \<Rightarrow>
             (case heappop nodes1 of
                None \<Rightarrow> None
              | Some (rgt, nodes2) \<Rightarrow>
                  build_loop (heappush nodes2
                    (HuffmanNode None (freq lft + freq rgt) (Some lft) (Some rgt)))))
      else Some nodes)"
  by pat_completeness auto

termination
  by (relation "measure length") (auto dest!: heappop_length)

declare build_loop.simps [simp del]

text \<open>
  \<open>build_huffman_tree\<close>: one node per item with a positive count, the items sorted as
  Python sorts tuples; the result is the last node left, or \<open>None\<close> when there was none.
\<close>

definition build_huffman_tree :: "dict \<Rightarrow> error + HuffmanNode option" where
  "build_huffman_tree frequency =
     (let nodes = map (\<lambda>(byte, fr). HuffmanNode (Some byte) fr None None)
                    (filter (\<lambda>(byte, fr). fr > 0) (sort frequency))
      in case build_loop (heapify nodes) of
           None \<Rightarrow> Inl IndexError
         | Some nodes' \<Rightarrow> Inr (if nodes' \<noteq> [] then Some (nodes' ! 0) else None))"

section \<open>Code table\<close>

text \<open>
  \<open>generate_codes\<close>: the dictionary \<open>codes\<close> is only looked up by key, so it is a map.
  A labelled node stores the path that led to it, or \<open>"0"\<close> when that path is empty.
\<close>

type_synonym codes = "nat \<rightharpoonup> string"

fun generate_codes :: "HuffmanNode option \<Rightarrow> string \<Rightarrow> codes \<Rightarrow> codes" where
  "generate_codes None current_code codes = codes"
| "generate_codes (Some (HuffmanNode c f l r)) current_code codes =
     (case c of
        Some b \<Rightarrow> codes(b \<mapsto> (if current_code \<noteq> [] then current_code else ''0''))
      | None \<Rightarrow>
          (let codes1 = generate_codes l (current_code @ ''0'') codes
           in generate_codes r (current_code @ ''1'') codes1))"

section \<open>Bit strings\<close>

text \<open>
  \<open>''.join(codes[byte] for byte in data)\<close>; a byte without a code is a \<open>KeyError\<close>.
\<close>

fun encode :: "codes \<Rightarrow> byte list \<Rightarrow> error + string" where
  "encode codes [] = Inr []"
| "encode codes (byte # data) =
     (case codes (unat byte) of
        None \<Rightarrow> Inl KeyError
      | Some code \<Rightarrow>
          (case encode codes data of
             Inl e \<Rightarrow> Inl e
           | Inr bits \<Rightarrow> Inr (code @ bits)))"

text \<open>
  \<open>int(s, 2)\<close> on a string of binary digits; any other string (and the empty one) is
  \<open>None\<close>, Python's \<open>ValueError\<close>.
\<close>

definition int2 :: "string \<Rightarrow> nat option" where
  "int2 s =
     (if s \<noteq> [] \<and> (\<forall>c \<in> set s. c = CHR ''0'' \<or> c = CHR ''1'')
      then Some (foldl (\<lambda>a c. 2 * a + (if c = CHR ''1'' then 1 else 0)) 0 s)
      else None)"

text \<open>\<open>[encoded_bits[i:i+8] for i in range(0, len(encoded_bits), 8)]\<close>.\<close>

function chunks8 :: "string \<Rightarrow> string list" where
  "chunks8 s = (if s = [] then [] else take 8 s # chunks8 (drop 8 s))"
  by pat_completeness auto

termination
  by (relation "measure length") auto

declare chunks8.simps [simp del]

text \<open>
  \<open>bytearray(int(chunk, 2) for chunk in ...)\<close>: every value must be in \<open>range(256)\<close>,
  or \<open>bytearray\<close> raises \<open>ValueError\<close>.
\<close>

fun pack :: "string list \<Rightarrow> error + byte list" where
  "pack [] = Inr []"
| "pack (chunk # rest) =
     (case int2 chunk of
        None \<Rightarrow> Inl ValueError
      | Some v \<Rightarrow>
          if v < 256 then
            (case pack rest of Inl e \<Rightarrow> Inl e | Inr bs \<Rightarrow> Inr (of_nat v # bs))
          else Inl ValueError)"

text \<open>\<open>f"{byte:08b}"\<close>: eight binary digits, most significant first.\<close>

definition format_08b :: "byte \<Rightarrow> string" where
  "format_08b b =
     map (\<lambda>i. if unat b div 2 ^ i mod 2 = 1 then CHR ''1'' else CHR ''0'') (rev [0..<8])"

section \<open>Container\<close>

text \<open>
  \<open>n.to_bytes(len, 'big')\<close> raises \<open>OverflowError\<close> (\<open>None\<close>) when \<open>n\<close> does not
  fit; \<open>int.from_bytes(bs, 'big')\<close> accepts any length, the empty one giving \<open>0\<close>.
\<close>

definition to_bytes :: "nat \<Rightarrow> nat \<Rightarrow> byte list option" where
  "to_bytes n len =
     (if n < 256 ^ len then Some (map (\<lambda>i. of_nat (n div 256 ^ i mod 256)) (rev [0..<len]))
      else None)"

definition from_bytes :: "byte list \<Rightarrow> nat" where
  "from_bytes bs = foldl (\<lambda>a b. 256 * a + unat b) 0 bs"

text \<open>
  The first five lines of \<open>compress\<close> after the emptiness check: table, tree, codes,
  bit string, padding and packed bytes.
\<close>

definition huffman_encode :: "byte list \<Rightarrow> error + (dict \<times> nat \<times> byte list)" where
  "huffman_encode data =
     (let frequency = build_frequency_table data
      in case build_huffman_tree frequency of
           Inl e \<Rightarrow> Inl e
         | Inr root \<Rightarrow>
             (let codes = generate_codes root [] Map.empty
              in case encode codes data of
                   Inl e \<Rightarrow> Inl e
                 | Inr encoded_bits \<Rightarrow>
                     (let padding = (8 - length encoded_bits mod 8) mod 8;
                          encoded_bits' = encoded_bits @ replicate padding (CHR ''0'')
                      in case pack (chunks8 encoded_bits') of
                           Inl e \<Rightarrow> Inl e
                         | Inr encoded_bytes \<Rightarrow> Inr (frequency, padding, encoded_bytes))))"

text \<open>
  What \<open>compress\<close> writes into the opened output file: the loop over \<open>range(256)\<close>
  appends four bytes per count and stops at the first count that \<open>to_bytes\<close> refuses,
  the bytes written so far staying in the file; then the padding byte and the payload.
\<close>

fun write_table :: "dict \<Rightarrow> nat list \<Rightarrow> byte list \<Rightarrow> error option \<times> byte list" where
  "write_table frequency [] out = (None, out)"
| "write_table frequency (byte # rest) out =
     (case to_bytes (dict_get frequency byte 0) 4 of
        None \<Rightarrow> (Some OverflowError, out)
      | Some bs \<Rightarrow> write_table frequency rest (out @ bs))"

definition write_container :: "dict \<Rightarrow> nat \<Rightarrow> byte list \<Rightarrow> error option \<times> byte list" where
  "write_container frequency padding encoded_bytes =
     (case write_table frequency [0..<256] [] of
        (Some e, out) \<Rightarrow> (Some e, out)
      | (None, out) \<Rightarrow>
          (case to_bytes padding 1 of
             None \<Rightarrow> (Some OverflowError, out)
           | Some p \<Rightarrow> (None, out @ p @ encoded_bytes)))"

text \<open>
  What \<open>decompress\<close> reads: \<open>f.read(4)\<close> for each byte value of \<open>range(256)\<close>
  (a read at the end of the file returns what is left, possibly nothing), one byte of
  padding, and the rest.
\<close>

fun read_table :: "nat list \<Rightarrow> byte list \<Rightarrow> dict \<times> byte list" where
  "read_table [] input = ([], input)"
| "read_table (byte # rest) input =
     (let (d, input') = read_table rest (drop 4 input)
      in ((byte, from_bytes (take 4 input)) # d, input'))"

text \<open>
  The decoding loop of \<open>decompress\<close>. \<open>current_node\<close> is a node at the start of each
  iteration; the child it moves to may be \<open>None\<close>, and reading \<open>.char\<close> of \<open>None\<close>
  raises \<open>AttributeError\<close>. \<open>bytearray.append\<close> raises \<open>ValueError\<close> outside
  \<open>range(256)\<close>.
\<close>

fun decode_walk :: "HuffmanNode \<Rightarrow> HuffmanNode \<Rightarrow> string \<Rightarrow> byte list \<Rightarrow> error + byte list" where
  "decode_walk root current_node [] decoded_data = Inr decoded_data"
| "decode_walk root current_node (b # bits) decoded_data =
     (case (if b = CHR ''0'' then left current_node else right current_node) of
        None \<Rightarrow> Inl AttributeError
      | Some n \<Rightarrow>
          (case char n of
             Some c \<Rightarrow>
               if c < 256 then decode_walk root root bits (decoded_data @ [of_nat c])
               else Inl ValueError
           | None \<Rightarrow> decode_walk root n bits decoded_data))"

text \<open>
  \<open>decompress\<close> between reading the input and writing the output. A tree of \<open>None\<close>
  is the branch that prints "Invalid Huffman data".
\<close>

definition huffman_decode :: "byte list \<Rightarrow> error + byte list" where
  "huffman_decode input =
     (let (frequency, input1) = read_table [0..<256] input;
          padding = from_bytes (take 1 input1);
          encoded_bytes = drop 1 input1
      in case build_huffman_tree frequency of
           Inl e \<Rightarrow> Inl e
         | Inr None \<Rightarrow> Inl InvalidContainer
         | Inr (Some root) \<Rightarrow>
             (let encoded_bits = concat (map format_08b encoded_bytes);
                  encoded_bits' = (if padding > 0
                                   then take (length encoded_bits - padding) encoded_bits
                                   else encoded_bits)
              in decode_walk root root encoded_bits' []))"

section \<open>Files\<close>

text \<open>
  The file system: the regular files with their contents, and the paths that cannot be
  opened for writing (\<open>open(path, 'wb')\<close> raises \<open>IOError\<close> there).
  \<open>validate_file_path(path, 'r')\<close> is \<open>os.path.isfile(path)\<close>.
\<close>

record fs =
  files :: "string \<rightharpoonup> byte list"
  unwritable :: "string set"

definition validate_file_path :: "fs \<Rightarrow> string \<Rightarrow> bool" where
  "validate_file_path s path = (files s path \<noteq> None)"

text \<open>
  \<open>compress\<close> and \<open>decompress\<close> return what they report (\<open>Inl\<close> for a printed error or
  a raised exception) and the file system they leave.
\<close>

definition compress :: "string \<Rightarrow> string \<Rightarrow> fs \<Rightarrow> (error + unit) \<times> fs" where
  "compress input_path output_path s =
     (if \<not> validate_file_path s input_path then (Inl FileNotFound, s)
      else case files s input_path of
        None \<Rightarrow> (Inl FileNotFound, s)
      | Some data \<Rightarrow>
          if data = [] then (Inl EmptyInput, s)
          else case huffman_encode data of
            Inl e \<Rightarrow> (Inl e, s)
          | Inr (frequency, padding, encoded_bytes) \<Rightarrow>
              if output_path \<in> unwritable s then (Inl IoFailure, s)
              else case write_container frequency padding encoded_bytes of
                (Some e, out) \<Rightarrow> (Inl e, s\<lparr>files := (files s)(output_path \<mapsto> out)\<rparr>)
              | (None, out) \<Rightarrow> (Inr (), s\<lparr>files := (files s)(output_path \<mapsto> out)\<rparr>))"

definition decompress :: "string \<Rightarrow> string \<Rightarrow> fs \<Rightarrow> (error + unit) \<times> fs" where
  "decompress input_path output_path s =
     (if \<not> validate_file_path s input_path then (Inl FileNotFound, s)
      else case files s input_path of
        None \<Rightarrow> (Inl FileNotFound, s)
      | Some input \<Rightarrow>
          (case huffman_decode input of
             Inl e \<Rightarrow> (Inl e, s)
           | Inr decoded_data \<Rightarrow>
               if output_path \<in> unwritable s then (Inl IoFailure, s)
               else (Inr (), s\<lparr>files := (files s)(output_path \<mapsto> decoded_data)\<rparr>)))"

section \<open>Notions used in the statements\<close>

text \<open>
  A strictly binary tree: a labelled node has no children, an unlabelled node has two,
  both strictly binary. \<open>labels\<close> collects the byte values that \<open>generate_codes\<close>
  visits.
\<close>

fun strict_binary :: "HuffmanNode \<Rightarrow> bool" where
  "strict_binary (HuffmanNode c f l r) =
     (case c of
        Some b \<Rightarrow> l = None \<and> r = None
      | None \<Rightarrow>
          (case l of None \<Rightarrow> False | Some n \<Rightarrow> strict_binary n) \<and>
          (case r of None \<Rightarrow> False | Some n \<Rightarrow> strict_binary n))"

fun labels :: "HuffmanNode \<Rightarrow> nat multiset" where
  "labels (HuffmanNode c f l r) =
     (case c of
        Some b \<Rightarrow> {#b#}
      | None \<Rightarrow>
          (case l of None \<Rightarrow> {#} | Some n \<Rightarrow> labels n) +
          (case r of None \<Rightarrow> {#} | Some n \<Rightarrow> labels n))"

text \<open>The list of nodes that \<open>build_huffman_tree\<close> hands to \<open>heapify\<close>.\<close>

definition leaf_nodes :: "dict \<Rightarrow> heap" where
  "leaf_nodes frequency =
     map (\<lambda>(byte, fr). HuffmanNode (Some byte) fr None None)
       (filter (\<lambda>(byte, fr). fr > 0) (sort frequency))"

text \<open>The tie-break key of the specification: the label, or 256 for an unlabelled node.\<close>

definition tie_break_key :: "HuffmanNode \<Rightarrow> nat" where
  "tie_break_key n = (case char n of Some c \<Rightarrow> c | None \<Rightarrow> 256)"

text \<open>
  \<open>reaches n p c\<close>: following the path \<open>p\<close> from \<open>n\<close> (\<open>0\<close> to the left, anything
  else to the right, as the decoding loop does) passes unlabelled nodes only and ends at
  a node labelled \<open>c\<close>.
\<close>

fun reaches :: "HuffmanNode \<Rightarrow> string \<Rightarrow> nat \<Rightarrow> bool" where
  "reaches n [] c = (char n = Some c)"
| "reaches n (b # bs) c =
     (char n = None \<and>
      (case (if b = CHR ''0'' then left n else right n) of
         None \<Rightarrow> False
       | Some m \<Rightarrow> reaches m bs c))"

text \<open>The labels below a child that may be \<open>None\<close>.\<close>

definition labels_opt :: "HuffmanNode option \<Rightarrow> nat multiset" where
  "labels_opt t = (case t of None \<Rightarrow> {#} | Some n \<Rightarrow> labels n)"

text \<open>Strings of binary digits, and the number such a string denotes.\<close>

definition binary :: "string \<Rightarrow> bool" where
  "binary s = (\<forall>c \<in> set s. c = CHR ''0'' \<or> c = CHR ''1'')"

definition bin_val :: "string \<Rightarrow> nat" where
  "bin_val s = foldl (\<lambda>a c. 2 * a + (if c = CHR ''1'' then 1 else 0)) 0 s"

text \<open>Four-byte big-endian fields.\<close>

definition be4 :: "nat \<Rightarrow> byte list" where
  "be4 n = [of_nat (n div 256 ^ 3 mod 256), of_nat (n div 256 ^ 2 mod 256),
            of_nat (n div 256 ^ 1 mod 256), of_nat (n div 256 ^ 0 mod 256)]"

text \<open>
  The code table of an input, the bit string of its codes, and the sum of the code
  lengths, named for the statements below.
\<close>

definition code_table :: "byte list \<Rightarrow> codes" where
  "code_table data =
     (case build_huffman_tree (build_frequency_table data) of
        Inl e \<Rightarrow> Map.empty
      | Inr root \<Rightarrow> generate_codes root [] Map.empty)"

definition encoded_bits_of :: "byte list \<Rightarrow> string" where
  "encoded_bits_of data =
     concat (map (\<lambda>b. case code_table data (unat b) of None \<Rightarrow> [] | Some c \<Rightarrow> c) data)"

definition total_bit_length :: "byte list \<Rightarrow> nat" where
  "total_bit_length data =
     sum_list (map (\<lambda>b. case code_table data (unat b) of None \<Rightarrow> 0 | Some c \<Rightarrow> length c) data)"

text \<open>The count field that \<open>decompress\<close> reads for byte value \<open>b\<close>.\<close>

definition stored_count :: "byte list \<Rightarrow> nat \<Rightarrow> nat" where
  "stored_count input b = from_bytes (take 4 (drop (4 * b) input))"

text \<open>The table of 256 count fields that \<open>compress\<close> writes for a dictionary.\<close>

definition table_bytes :: "dict \<Rightarrow> byte list" where
  "table_bytes frequency = concat (map (\<lambda>b. be4 (dict_get frequency b 0)) [0..<256])"

section \<open>The heap operations permute their list\<close>

lemma update_swap_mset:
  assumes "i < length xs" "j < length xs" "i \<noteq> j"
  shows "mset (xs[i := xs ! j, j := x]) = mset (xs[i := x])"
proof -
  let ?L = "xs[i := x]"
  have "mset (?L[j := ?L ! i, i := ?L ! j]) = mset ?L"
    using assms by (intro mset_swap) simp_all
  moreover have "?L[j := ?L ! i, i := ?L ! j] = xs[i := xs ! j, j := x]"
    using assms by (auto simp: list_eq_iff_nth_eq nth_list_update)
  ultimately show ?thesis by simp
qed

lemma siftdown_loop_mset:
  "pos < length heap \<Longrightarrow> siftdown_loop heap newitem startpos pos = (heap', pos') \<Longrightarrow>
     mset (heap'[pos' := newitem]) = mset (heap[pos := newitem])"
proof (induction heap newitem startpos pos rule: siftdown_loop.induct)
  case (1 heap newitem startpos pos)
  let ?pp = "(pos - 1) div 2"
  show ?case
  proof (cases "startpos < pos \<and> lt newitem (heap ! ?pp)")
    case True
    then have pp: "?pp < pos" by arith
    have run: "siftdown_loop (heap[pos := heap ! ?pp]) newitem startpos ?pp = (heap', pos')"
      using "1.prems" True by (simp add: siftdown_loop_step)
    have "mset (heap'[pos' := newitem]) = mset (heap[pos := heap ! ?pp, ?pp := newitem])"
      using "1.IH" [OF _ refl refl _ _ run] True pp "1.prems"(1) by simp
    also have "\<dots> = mset (heap[pos := newitem])"
      using pp "1.prems"(1) by (intro update_swap_mset) simp_all
    finally show ?thesis .
  next
    case False
    then have "(heap', pos') = (heap, pos)"
      using "1.prems" by (simp add: siftdown_loop_stop)
    then show ?thesis by simp
  qed
qed

lemma siftdown_mset [simp]:
  assumes "pos < length heap"
  shows "mset (siftdown heap startpos pos) = mset heap"
proof -
  obtain heap' pos' where run: "siftdown_loop heap (heap ! pos) startpos pos = (heap', pos')"
    by (cases "siftdown_loop heap (heap ! pos) startpos pos")
  from siftdown_loop_mset [OF assms run] show ?thesis
    by (simp add: siftdown_def run)
qed

lemma siftup_loop_mset:
  "pos < length heap \<Longrightarrow> siftup_loop heap pos = (heap', pos') \<Longrightarrow>
     mset (heap'[pos' := newitem]) = mset (heap[pos := newitem])"
proof (induction heap pos rule: siftup_loop.induct)
  case (1 heap pos)
  let ?c = "smaller_child heap pos"
  show ?case
  proof (cases "2 * pos + 1 < length heap")
    case True
    note b = smaller_child_bounds [OF True]
    have c_eq: "?c = (if 2 * pos + 1 + 1 < length heap \<and>
        \<not> lt (heap ! (2 * pos + 1)) (heap ! (2 * pos + 1 + 1)) then 2 * pos + 1 + 1 else 2 * pos + 1)"
      by (simp add: smaller_child_def)
    have run: "siftup_loop (heap[pos := heap ! ?c]) ?c = (heap', pos')"
      using "1.prems" True by (simp add: siftup_loop_step)
    have "mset (heap'[pos' := newitem]) = mset (heap[pos := heap ! ?c, ?c := newitem])"
      using "1.IH" [OF refl refl True refl refl] run b c_eq by simp
    also have "\<dots> = mset (heap[pos := newitem])"
      using b "1.prems"(1) by (intro update_swap_mset) simp_all
    finally show ?thesis .
  next
    case False
    then have "(heap', pos') = (heap, pos)"
      using "1.prems" by (simp add: siftup_loop_stop)
    then show ?thesis by simp
  qed
qed

lemma siftup_mset [simp]:
  assumes "pos < length heap"
  shows "mset (siftup heap pos) = mset heap"
proof -
  obtain heap' pos' where run: "siftup_loop heap pos = (heap', pos')"
    by (cases "siftup_loop heap pos")
  from siftup_loop_length [OF run] assms
  have len: "pos' < length (heap'[pos' := heap ! pos])" by simp
  have "mset (siftup heap pos) = mset (heap'[pos' := heap ! pos])"
    using len by (simp add: siftup_def run)
  also have "\<dots> = mset heap"
    using siftup_loop_mset [OF assms run, of "heap ! pos"] by simp
  finally show ?thesis .
qed

lemma fold_siftup_mset:
  "\<forall>i \<in> set is. i < length x \<Longrightarrow>
     mset (fold (\<lambda>i h. siftup h i) is x) = mset x \<and>
     length (fold (\<lambda>i h. siftup h i) is x) = length x"
  by (induction "is" arbitrary: x) simp_all

lemma heapify_mset [simp]: "mset (heapify x) = mset x"
proof -
  have "\<forall>i \<in> set (rev [0..<length x div 2]). i < length x" by auto
  from fold_siftup_mset [OF this] show ?thesis by (simp add: heapify_def)
qed

lemma heappush_mset [simp]: "mset (heappush heap item) = add_mset item (mset heap)"
  by (simp add: heappush_def)

lemma heappop_mset:
  assumes "heappop heap = Some (item, heap')"
  shows "mset heap = add_mset item (mset heap')"
proof -
  from assms have ne: "heap \<noteq> []" by (auto simp: heappop_def split: if_splits)
  then obtain xs x where heap: "heap = xs @ [x]" by (cases heap rule: rev_cases) auto
  show ?thesis
  proof (cases "xs = []")
    case True
    with assms heap show ?thesis by (simp add: heappop_def)
  next
    case False
    then obtain y ys where xs: "xs = y # ys" by (cases xs) auto
    from assms heap False have "item = xs ! 0" "heap' = siftup (xs[0 := x]) 0"
      by (simp_all add: heappop_def)
    with xs heap show ?thesis by simp
  qed
qed

lemma heappop_Some: "heap \<noteq> [] \<Longrightarrow> \<exists>item heap'. heappop heap = Some (item, heap')"
  by (simp add: heappop_def Let_def)

section \<open>Shape of the tree\<close>

lemma heappush_set: "set (heappush heap item) = insert item (set heap)"
proof -
  have "set_mset (mset (heappush heap item)) = set_mset (add_mset item (mset heap))"
    by (simp only: heappush_mset)
  then show ?thesis by (simp only: set_mset_mset set_mset_add_mset_insert)
qed

lemma heappop_set:
  assumes "heappop heap = Some (item, heap')"
  shows "set heap = insert item (set heap')"
proof -
  have "set_mset (mset heap) = set_mset (add_mset item (mset heap'))"
    by (simp only: heappop_mset [OF assms])
  then show ?thesis by (simp only: set_mset_mset set_mset_add_mset_insert)
qed

lemma build_loop_stop: "\<not> 1 < length nodes \<Longrightarrow> build_loop nodes = Some nodes"
  by (subst build_loop.simps) simp

lemma build_loop_step:
  "1 < length nodes \<Longrightarrow> heappop nodes = Some (lft, nodes1) \<Longrightarrow>
   heappop nodes1 = Some (rgt, nodes2) \<Longrightarrow>
     build_loop nodes =
       build_loop (heappush nodes2 (HuffmanNode None (freq lft + freq rgt) (Some lft) (Some rgt)))"
  by (subst build_loop.simps) simp

lemma build_loop_result:
  "nodes \<noteq> [] \<Longrightarrow> \<forall>n \<in> set nodes. strict_binary n \<Longrightarrow>
     \<exists>root. build_loop nodes = Some [root] \<and> strict_binary root \<and>
       labels root = (\<Sum>n \<in># mset nodes. labels n) \<and>
       (1 < length nodes \<longrightarrow> char root = None)"
proof (induction "length nodes" arbitrary: nodes rule: less_induct)
  case less
  show ?case
  proof (cases "1 < length nodes")
    case False
    with less.prems obtain root where "nodes = [root]"
      by (cases nodes) auto
    with less.prems False show ?thesis by (simp add: build_loop_stop)
  next
    case True
    from less.prems obtain lft nodes1 where p1: "heappop nodes = Some (lft, nodes1)"
      using heappop_Some by blast
    from heappop_length [OF p1] True have "nodes1 \<noteq> []" by auto
    then obtain rgt nodes2 where p2: "heappop nodes1 = Some (rgt, nodes2)"
      using heappop_Some by blast
    let ?m = "HuffmanNode None (freq lft + freq rgt) (Some lft) (Some rgt)"
    let ?h = "heappush nodes2 ?m"
    have m1: "mset nodes = add_mset lft (mset nodes1)" by (rule heappop_mset [OF p1])
    have m2: "mset nodes1 = add_mset rgt (mset nodes2)" by (rule heappop_mset [OF p2])
    have mh: "mset ?h = add_mset ?m (mset nodes2)" by simp
    have len: "length ?h < length nodes"
      using heappop_length [OF p1] heappop_length [OF p2] by simp
    have sn: "set nodes = insert lft (insert rgt (set nodes2))"
      by (simp add: heappop_set [OF p1] heappop_set [OF p2])
    have sh: "set ?h = insert ?m (set nodes2)" by (rule heappush_set)
    have wf: "\<forall>n \<in> set ?h. strict_binary n"
      using less.prems(2) by (simp only: sh sn) simp
    have ne: "?h \<noteq> []" by (metis heappush_length length_0_conv nat.distinct(1))
    from less.hyps [OF len ne wf] obtain root where
      r: "build_loop ?h = Some [root]" "strict_binary root"
         "labels root = (\<Sum>n \<in># mset ?h. labels n)"
         "1 < length ?h \<longrightarrow> char root = None"
      by blast
    have "build_loop nodes = Some [root]"
      using build_loop_step [OF True p1 p2] r(1) by simp
    moreover have "labels root = (\<Sum>n \<in># mset nodes. labels n)"
      by (simp only: r(3) mh m1 m2) (simp add: ac_simps)
    moreover have "char root = None"
    proof (cases "1 < length ?h")
      case True
      with r(4) show ?thesis by simp
    next
      case False
      then have "length nodes2 = 0" by simp
      then have "?h = [?m]" by (simp add: heappush_def siftdown_def siftdown_loop_stop)
      with r(1) have "root = ?m" by (simp add: build_loop_stop)
      then show ?thesis by simp
    qed
    ultimately show ?thesis using r(2) by blast
  qed
qed

lemma build_loop_Nil: "build_loop [] = Some []"
  by (simp add: build_loop_stop)

section \<open>The tree built from a frequency table\<close>

lemma build_huffman_tree_leaf_nodes:
  "build_huffman_tree frequency =
     (case build_loop (heapify (leaf_nodes frequency)) of
        None \<Rightarrow> Inl IndexError
      | Some nodes' \<Rightarrow> Inr (if nodes' \<noteq> [] then Some (nodes' ! 0) else None))"
  by (simp add: build_huffman_tree_def leaf_nodes_def)

lemma heapify_length [simp]: "length (heapify x) = length x"
proof -
  have "\<forall>i \<in> set (rev [0..<length x div 2]). i < length x" by auto
  from fold_siftup_mset [OF this] show ?thesis by (simp add: heapify_def)
qed

lemma heapify_set [simp]: "set (heapify x) = set x"
proof -
  have "set_mset (mset (heapify x)) = set_mset (mset x)" by (simp only: heapify_mset)
  then show ?thesis by (simp only: set_mset_mset)
qed

lemma leaf_nodes_strict_binary: "\<forall>n \<in> set (leaf_nodes frequency). strict_binary n"
  by (auto simp: leaf_nodes_def)

lemma leaf_nodes_labels:
  "(\<Sum>n \<in># mset (leaf_nodes frequency). labels n) =
     image_mset fst (filter_mset (\<lambda>(byte, fr). fr > 0) (mset frequency))"
proof -
  have "(\<Sum>n \<in># mset (leaf_nodes frequency). labels n) =
        (\<Sum>p \<in># mset (filter (\<lambda>(byte, fr). fr > 0) (sort frequency)). {#fst p#})"
    by (simp add: leaf_nodes_def image_mset.compositionality comp_def case_prod_beta)
  also have "\<dots> = image_mset fst (mset (filter (\<lambda>(byte, fr). fr > 0) (sort frequency)))"
    by (induction "filter (\<lambda>(byte, fr). fr > 0) (sort frequency)") simp_all
  finally show ?thesis by simp
qed

lemma leaf_nodes_length:
  "length (leaf_nodes frequency) = length (filter (\<lambda>(byte, fr). fr > 0) frequency)"
  by (simp add: leaf_nodes_def filter_sort)

lemma build_huffman_tree_None:
  "filter (\<lambda>(byte, fr). fr > 0) frequency = [] \<Longrightarrow> build_huffman_tree frequency = Inr None"
proof -
  assume "filter (\<lambda>(byte, fr). fr > 0) frequency = []"
  then have "length (leaf_nodes frequency) = 0" by (simp add: leaf_nodes_length)
  then have "leaf_nodes frequency = []" by simp
  then show ?thesis
    by (simp add: build_huffman_tree_leaf_nodes heapify_def build_loop_Nil)
qed

lemma build_huffman_tree_Some:
  assumes "filter (\<lambda>(byte, fr). fr > 0) frequency \<noteq> []"
  shows "\<exists>root. build_huffman_tree frequency = Inr (Some root) \<and> strict_binary root \<and>
           labels root = image_mset fst (filter_mset (\<lambda>(byte, fr). fr > 0) (mset frequency)) \<and>
           (1 < length (filter (\<lambda>(byte, fr). fr > 0) frequency) \<longrightarrow> char root = None)"
proof -
  let ?h = "heapify (leaf_nodes frequency)"
  from assms have "length (leaf_nodes frequency) \<noteq> 0" by (simp add: leaf_nodes_length)
  then have ne: "?h \<noteq> []" by (metis heapify_length length_0_conv)
  have wf: "\<forall>n \<in> set ?h. strict_binary n" by (simp add: leaf_nodes_strict_binary)
  from build_loop_result [OF ne wf] obtain root where
    r: "build_loop ?h = Some [root]" "strict_binary root"
       "labels root = (\<Sum>n \<in># mset ?h. labels n)"
       "1 < length ?h \<longrightarrow> char root = None"
    by blast
  have "build_huffman_tree frequency = Inr (Some root)"
    by (simp add: build_huffman_tree_leaf_nodes r(1))
  moreover have "labels root = image_mset fst (filter_mset (\<lambda>(byte, fr). fr > 0) (mset frequency))"
    by (simp only: r(3) heapify_mset leaf_nodes_labels)
  moreover have "1 < length (filter (\<lambda>(byte, fr). fr > 0) frequency) \<longrightarrow> char root = None"
    using r(4) by (simp add: leaf_nodes_length)
  ultimately show ?thesis using r(2) by blast
qed

lemma build_huffman_tree_single:
  assumes "filter (\<lambda>(byte, fr). fr > 0) frequency = [(b, f)]"
  shows "build_huffman_tree frequency = Inr (Some (HuffmanNode (Some b) f None None))"
proof -
  have "mset (filter (\<lambda>(byte, fr). fr > 0) (sort frequency)) = {#(b, f)#}"
    using assms by (simp only: mset_filter mset_sort) (metis mset.simps mset_filter)
  then have "filter (\<lambda>(byte, fr). fr > 0) (sort frequency) = [(b, f)]"
    by (metis mset_single_iff_right)
  then have "leaf_nodes frequency = [HuffmanNode (Some b) f None None]"
    by (simp add: leaf_nodes_def)
  then show ?thesis
    by (simp add: build_huffman_tree_leaf_nodes heapify_def build_loop_stop)
qed

section \<open>The decoding walk on a strictly binary tree\<close>

lemma strict_binary_internal:
  "strict_binary n \<Longrightarrow> char n = None \<Longrightarrow>
     \<exists>l r. left n = Some l \<and> right n = Some r \<and> strict_binary l \<and> strict_binary r"
  by (cases n) (auto split: option.splits)

lemma decode_walk_no_AttributeError:
  "strict_binary root \<Longrightarrow> char root = None \<Longrightarrow>
   strict_binary cur \<Longrightarrow> char cur = None \<Longrightarrow>
     decode_walk root cur bits acc \<noteq> Inl AttributeError"
proof (induction bits arbitrary: cur acc)
  case Nil
  show ?case by simp
next
  case (Cons b bits)
  from strict_binary_internal [OF Cons.prems(3,4)] obtain l r where
    ch: "left cur = Some l" "right cur = Some r" "strict_binary l" "strict_binary r"
    by blast
  define n where "n = (if b = CHR ''0'' then l else r)"
  have n: "(if b = CHR ''0'' then left cur else right cur) = Some n" "strict_binary n"
    using ch by (simp_all add: n_def)
  show ?case
  proof (cases "char n")
    case None
    with Cons.IH [OF Cons.prems(1,2) n(2)] n(1) show ?thesis by simp
  next
    case (Some c)
    with Cons.IH [OF Cons.prems(1,2) Cons.prems(1,2)] n(1) show ?thesis by simp
  qed
qed

lemma two_positive_items:
  assumes "(k1, f1) \<in> set frequency" "(k2, f2) \<in> set frequency" "k1 \<noteq> k2" "0 < f1" "0 < f2"
  shows "1 < length (filter (\<lambda>(byte, fr). fr > 0) frequency)"
proof -
  let ?xs = "filter (\<lambda>(byte, fr). fr > 0) frequency"
  have "{(k1, f1), (k2, f2)} \<subseteq> set ?xs" using assms by auto
  then have "card {(k1, f1), (k2, f2)} \<le> card (set ?xs)" by (intro card_mono) simp_all
  also have "\<dots> \<le> length ?xs" by (rule card_length)
  finally show ?thesis using assms(3) by simp
qed

section \<open>Codes are the paths to the labelled nodes\<close>

lemma labels_opt_simps [simp]:
  "labels_opt None = {#}"
  "labels_opt (Some n) = labels n"
  by (simp_all add: labels_opt_def)

lemma labels_node:
  "labels (HuffmanNode c f l r) =
     (case c of Some b \<Rightarrow> {#b#} | None \<Rightarrow> labels_opt l + labels_opt r)"
  by (simp add: labels_opt_def split: option.splits)

lemma reaches_unique:
  "reaches n p c \<Longrightarrow> reaches n (p @ q) c' \<Longrightarrow> q = [] \<and> c = c'"
proof (induction p arbitrary: n)
  case Nil
  then show ?case by (cases q) auto
next
  case (Cons b p)
  then show ?case by (auto split: option.splits if_splits)
qed

lemma generate_codes_other:
  "c \<notin># labels_opt t \<Longrightarrow> generate_codes t cur codes c = codes c"
proof (induction t cur codes rule: generate_codes.induct)
  case (1 cur codes)
  show ?case by simp
next
  case (2 c' f l r cur codes)
  show ?case
  proof (cases c')
    case (Some b)
    with "2.prems" show ?thesis by auto
  next
    case None
    with "2.prems" have nl: "c \<notin># labels_opt l" and nr: "c \<notin># labels_opt r"
      by (simp_all add: labels_opt_def)
    show ?thesis
      using "2.IH"(1) [OF None nl] "2.IH"(2) [OF None refl nr] None by (simp add: Let_def)
  qed
qed

lemma generate_codes_dom:
  "dom (generate_codes t cur codes) = dom codes \<union> set_mset (labels_opt t)"
proof (induction t cur codes rule: generate_codes.induct)
  case (1 cur codes)
  show ?case by simp
next
  case (2 c' f l r cur codes)
  show ?case
  proof (cases c')
    case (Some b)
    then show ?thesis by auto
  next
    case None
    show ?thesis
      using "2.IH"(1) [OF None] "2.IH"(2) [OF None refl] None
      by (auto simp: Let_def labels_opt_def)
  qed
qed

lemma generate_codes_reaches_opt:
  "c \<in># labels_opt t \<Longrightarrow> \<forall>x. count (labels_opt t) x \<le> 1 \<Longrightarrow>
   cur \<noteq> [] \<or> (\<exists>n. t = Some n \<and> char n = None) \<Longrightarrow>
     \<exists>q n. t = Some n \<and> generate_codes t cur codes c = Some (cur @ q) \<and> reaches n q c"
proof (induction t cur codes rule: generate_codes.induct)
  case (1 cur codes)
  then show ?case by simp
next
  case (2 c' f l r cur codes)
  show ?case
  proof (cases c')
    case (Some b)
    with "2.prems" show ?thesis by auto
  next
    case None
    let ?codes1 = "generate_codes l (cur @ ''0'') codes"
    have res: "generate_codes (Some (HuffmanNode c' f l r)) cur codes =
               generate_codes r (cur @ ''1'') ?codes1"
      using None by (simp add: Let_def)
    have lab: "labels_opt (Some (HuffmanNode c' f l r)) = labels_opt l + labels_opt r"
      using None by (simp add: labels_opt_def)
    have cnt: "count (labels_opt l) x + count (labels_opt r) x \<le> 1" for x
      using "2.prems"(2) by (simp only: lab count_union [symmetric])
    show ?thesis
    proof (cases "c \<in># labels_opt l")
      case True
      from True have "1 \<le> count (labels_opt l) c"
        by (simp add: Suc_le_eq)
      with cnt [of c] have "count (labels_opt r) c = 0" by linarith
      then have nr: "c \<notin># labels_opt r" by (simp add: count_eq_zero_iff)
      have "\<forall>x. count (labels_opt l) x \<le> 1"
        using cnt by (auto intro: le_trans [OF le_add1])
      from "2.IH"(1) [OF None True this]
      obtain q ln where q: "l = Some ln" "?codes1 c = Some ((cur @ ''0'') @ q)" "reaches ln q c"
        by auto
      have "generate_codes (Some (HuffmanNode c' f l r)) cur codes c = Some (cur @ (CHR ''0'' # q))"
        by (simp only: res generate_codes_other [OF nr] q(2)) simp
      moreover have "reaches (HuffmanNode c' f l r) (CHR ''0'' # q) c"
        using None q(1,3) by simp
      ultimately show ?thesis by blast
    next
      case False
      with "2.prems"(1) lab have inr: "c \<in># labels_opt r" by simp
      have "\<forall>x. count (labels_opt r) x \<le> 1"
        using cnt by (auto intro: le_trans [OF le_add2])
      from "2.IH"(2) [OF None refl inr this]
      obtain q rn where q: "r = Some rn"
        "generate_codes r (cur @ ''1'') ?codes1 c = Some ((cur @ ''1'') @ q)" "reaches rn q c"
        by auto
      have "generate_codes (Some (HuffmanNode c' f l r)) cur codes c = Some (cur @ (CHR ''1'' # q))"
        by (simp only: res q(2)) simp
      moreover have "reaches (HuffmanNode c' f l r) (CHR ''1'' # q) c"
        using None q(1,3) by simp
      ultimately show ?thesis by blast
    qed
  qed
qed

lemma generate_codes_reaches:
  assumes "c \<in># labels n" "\<forall>x. count (labels n) x \<le> 1" "char n = None"
  shows "\<exists>q. generate_codes (Some n) [] codes c = Some q \<and> reaches n q c"
  using generate_codes_reaches_opt [of c "Some n" "[]" codes] assms by auto

section \<open>The code table is a prefix code\<close>

lemma labels_of_dict:
  "image_mset fst (filter_mset (\<lambda>(byte, fr). fr > 0) (mset frequency)) =
     mset (map fst (filter (\<lambda>(byte, fr). fr > 0) frequency))"
  by simp

lemma labels_of_dict_count:
  assumes "distinct (map fst frequency)"
  shows "count (image_mset fst (filter_mset (\<lambda>(byte, fr). fr > 0) (mset frequency))) x \<le> 1"
proof -
  have "distinct (map fst (filter (\<lambda>(byte, fr). fr > 0) frequency))"
    using assms by (rule distinct_map_filter)
  then have "count (mset (map fst (filter (\<lambda>(byte, fr). fr > 0) frequency))) x \<le> 1"
    by (simp add: distinct_count_atmost_1)
  then show ?thesis by (simp only: labels_of_dict)
qed

lemma labels_of_dict_set:
  "set_mset (image_mset fst (filter_mset (\<lambda>(byte, fr). fr > 0) (mset frequency))) =
     {b. \<exists>n. (b, n) \<in> set frequency \<and> 0 < n}"
  by (auto simp: image_iff) 

section \<open>The frequency table of a byte sequence\<close>

lemma dict_incr_map_of:
  "map_of (dict_incr d k) = (map_of d)(k \<mapsto> (case map_of d k of None \<Rightarrow> 1 | Some v \<Rightarrow> v + 1))"
  by (induction d k rule: dict_incr.induct) (auto simp: fun_eq_iff)

lemma dict_incr_keys: "set (map fst (dict_incr d k)) = insert k (set (map fst d))"
  by (induction d k rule: dict_incr.induct) auto

lemma dict_incr_distinct: "distinct (map fst d) \<Longrightarrow> distinct (map fst (dict_incr d k))"
proof (induction d k rule: dict_incr.induct)
  case (1 k)
  show ?case by simp
next
  case (2 k' v d k)
  have "set (map fst (dict_incr d k)) = insert k (set (map fst d))" by (rule dict_incr_keys)
  with 2 show ?case by auto
qed

lemma fold_dict_incr:
  "distinct (map fst d) \<Longrightarrow>
     distinct (map fst (fold (\<lambda>byte frequency. dict_incr frequency (unat byte)) data d)) \<and>
     (\<forall>k. map_of (fold (\<lambda>byte frequency. dict_incr frequency (unat byte)) data d) k =
        (if k \<in> unat ` set data \<or> k \<in> dom (map_of d)
         then Some (count_list (map unat data) k + (case map_of d k of None \<Rightarrow> 0 | Some v \<Rightarrow> v))
         else None))"
proof (induction data arbitrary: d)
  case Nil
  then show ?case by (auto split: option.splits)
next
  case (Cons b data)
  have d': "distinct (map fst (dict_incr d (unat b)))" by (rule dict_incr_distinct [OF Cons.prems])
  show ?case
    using Cons.IH [OF d'] by (auto simp: dict_incr_map_of split: option.splits)
qed

lemma build_frequency_table_distinct [simp]: "distinct (map fst (build_frequency_table data))"
  using fold_dict_incr [of "[]" data] by (simp add: build_frequency_table_def)

lemma build_frequency_table_map_of:
  "map_of (build_frequency_table data) k =
     (if k \<in> unat ` set data then Some (count_list (map unat data) k) else None)"
  using fold_dict_incr [of "[]" data] by (simp add: build_frequency_table_def)

lemma count_list_pos: "x \<in> set xs \<Longrightarrow> 0 < count_list xs x"
  by (induction xs) auto

lemma build_frequency_table_mem:
  "(k, v) \<in> set (build_frequency_table data) \<longleftrightarrow>
     k \<in> unat ` set data \<and> v = count_list (map unat data) k"
proof -
  have "(k, v) \<in> set (build_frequency_table data) \<longleftrightarrow>
        map_of (build_frequency_table data) k = Some v"
    by simp
  then show ?thesis by (auto simp: build_frequency_table_map_of)
qed

lemma build_frequency_table_positive:
  "(k, v) \<in> set (build_frequency_table data) \<Longrightarrow> 0 < v \<and> k < 256"
proof -
  assume "(k, v) \<in> set (build_frequency_table data)"
  then have k: "k \<in> unat ` set data" and v: "v = count_list (map unat data) k"
    by (simp_all add: build_frequency_table_mem)
  from k have "k \<in> set (map unat data)" by simp
  then have "0 < v" unfolding v by (rule count_list_pos)
  moreover from k obtain b :: byte where "k = unat b" by auto
  then have "k < 256" using unsigned_less [of b, where 'a = nat] by simp
  ultimately show ?thesis by simp
qed

lemma build_frequency_table_get:
  "dict_get (build_frequency_table data) k 0 = count_list (map unat data) k"
proof (cases "k \<in> unat ` set data")
  case True
  then show ?thesis by (simp add: dict_get_def build_frequency_table_map_of)
next
  case False
  then have "k \<notin> set (map unat data)" by simp
  then have "count_list (map unat data) k = 0" by (simp add: count_list_0_iff)
  with False show ?thesis by (simp add: dict_get_def build_frequency_table_map_of)
qed

lemma build_frequency_table_filter:
  "filter (\<lambda>(byte, fr). fr > 0) (build_frequency_table data) = build_frequency_table data"
  by (rule filter_True) (auto dest: build_frequency_table_positive)

lemma build_frequency_table_keys:
  "set (map fst (build_frequency_table data)) = unat ` set data"
proof -
  have "set (map fst (build_frequency_table data)) = dom (map_of (build_frequency_table data))"
    by (simp add: dom_map_of_conv_image_fst)
  also have "\<dots> = unat ` set data"
    by (auto simp: build_frequency_table_map_of dom_def)
  finally show ?thesis .
qed

lemma build_frequency_table_Nil_iff: "build_frequency_table data = [] \<longleftrightarrow> data = []"
proof
  assume "build_frequency_table data = []"
  then have "set (map fst (build_frequency_table data)) = {}" by simp
  then show "data = []" by (simp only: build_frequency_table_keys) simp
next
  assume "data = []"
  then show "build_frequency_table data = []" by (simp add: build_frequency_table_def)
qed

section \<open>Packing bits into bytes and back\<close>

lemma binary_simps [simp]:
  "binary []"
  "binary (c # s) \<longleftrightarrow> (c = CHR ''0'' \<or> c = CHR ''1'') \<and> binary s"
  "binary (s @ t) \<longleftrightarrow> binary s \<and> binary t"
  "binary (replicate n (CHR ''0''))"
  by (auto simp: binary_def)

lemma binary_take_drop: "binary s \<Longrightarrow> binary (take n s) \<and> binary (drop n s)"
  by (auto simp: binary_def dest: in_set_takeD in_set_dropD)

lemma bin_val_snoc [simp]:
  "bin_val (s @ [c]) = 2 * bin_val s + (if c = CHR ''1'' then 1 else 0)"
  by (simp add: bin_val_def)

lemma bin_val_Nil [simp]: "bin_val [] = 0"
  by (simp add: bin_val_def)

lemma bin_val_less: "bin_val s < 2 ^ length s"
  by (induction s rule: rev_induct) auto

lemma int2_binary: "binary s \<Longrightarrow> s \<noteq> [] \<Longrightarrow> int2 s = Some (bin_val s)"
  by (simp add: int2_def binary_def bin_val_def)

lemma rev_upt_Suc: "rev [0..<Suc n] = map Suc (rev [0..<n]) @ [0]"
proof -
  have "[0..<Suc n] = 0 # map Suc [0..<n]"
    by (simp add: upt_conv_Cons map_Suc_upt del: upt_Suc)
  then show ?thesis by (simp add: rev_map del: upt_Suc)
qed

lemma digits_bin_val:
  "binary s \<Longrightarrow>
     map (\<lambda>i. if bin_val s div 2 ^ i mod 2 = 1 then CHR ''1'' else CHR ''0'')
       (rev [0..<length s]) = s"
proof (induction s rule: rev_induct)
  case Nil
  show ?case by simp
next
  case (snoc c s)
  then have IH: "map (\<lambda>i. if bin_val s div 2 ^ i mod 2 = 1 then CHR ''1'' else CHR ''0'')
       (rev [0..<length s]) = s" and c: "c = CHR ''0'' \<or> c = CHR ''1''"
    by simp_all
  let ?v = "bin_val (s @ [c])"
  have hi: "?v div 2 ^ Suc i mod 2 = bin_val s div 2 ^ i mod 2" for i
  proof -
    have "?v div 2 ^ Suc i = (?v div 2) div 2 ^ i"
      by (simp add: div_mult2_eq)
    moreover have "?v div 2 = bin_val s" by simp
    ultimately show ?thesis by simp
  qed
  have lo: "(if ?v div 2 ^ 0 mod 2 = 1 then CHR ''1'' else CHR ''0'') = c"
    using c by auto
  have "map (\<lambda>i. if ?v div 2 ^ i mod 2 = 1 then CHR ''1'' else CHR ''0'')
          (rev [0..<length (s @ [c])]) =
        map (\<lambda>i. if ?v div 2 ^ Suc i mod 2 = 1 then CHR ''1'' else CHR ''0'')
          (rev [0..<length s]) @
        [if ?v div 2 ^ 0 mod 2 = 1 then CHR ''1'' else CHR ''0'']"
    by (simp only: length_append_singleton rev_upt_Suc map_append map_map comp_def list.map)
  also have "\<dots> = s @ [c]"
    by (simp only: hi lo IH)
  finally show ?case .
qed

lemma format_08b_bin_val:
  assumes "binary s" "length s = 8"
  shows "format_08b (of_nat (bin_val s)) = s"
proof -
  have "bin_val s < 2 ^ 8" using bin_val_less [of s] assms(2) by simp
  then have "unat (of_nat (bin_val s) :: byte) = bin_val s"
    by (simp add: unat_of_nat)
  then show ?thesis
    using digits_bin_val [OF assms(1)] by (simp only: format_08b_def assms(2))
qed

lemma chunks8_Nil [simp]: "chunks8 [] = []"
  by (subst chunks8.simps) simp

lemma chunks8_step: "s \<noteq> [] \<Longrightarrow> chunks8 s = take 8 s # chunks8 (drop 8 s)"
  by (subst chunks8.simps) simp

text \<open>
  A bit string of binary digits whose length is a multiple of eight is packed without
  error, one byte per eight digits, and formatting the bytes gives the bit string back.
\<close>

lemma pack_chunks8:
  "binary s \<Longrightarrow> 8 dvd length s \<Longrightarrow>
     \<exists>bs. pack (chunks8 s) = Inr bs \<and> concat (map format_08b bs) = s \<and>
       8 * length bs = length s"
proof (induction s rule: chunks8.induct)
  case (1 s)
  show ?case
  proof (cases "s = []")
    case True
    then show ?thesis by simp
  next
    case False
    from False have "0 < length s" by simp
    with "1.prems"(2) have len: "8 \<le> length s"
      by (simp add: dvd_imp_le)
    then have l8: "length (take 8 s) = 8" by simp
    have b8: "binary (take 8 s)" and bd: "binary (drop 8 s)"
      using binary_take_drop [OF "1.prems"(1)] by simp_all
    have "8 dvd length (drop 8 s)"
      using "1.prems"(2) len by simp
    from "1.IH" [OF False bd this] obtain bs where
      bs: "pack (chunks8 (drop 8 s)) = Inr bs" "concat (map format_08b bs) = drop 8 s"
          "8 * length bs = length (drop 8 s)"
      by blast
    have ne: "take 8 s \<noteq> []" using l8 by auto
    have v: "bin_val (take 8 s) < 256" using bin_val_less [of "take 8 s"] l8 by simp
    let ?b = "of_nat (bin_val (take 8 s)) :: byte"
    have "pack (chunks8 s) = pack (take 8 s # chunks8 (drop 8 s))"
      by (simp only: chunks8_step [OF False])
    also have "\<dots> = Inr (?b # bs)"
      by (simp only: pack.simps int2_binary [OF b8 ne] bs(1) option.case sum.case v if_True)
    finally have "pack (chunks8 s) = Inr (?b # bs)" .
    moreover have "concat (map format_08b (?b # bs)) = s"
      by (simp add: format_08b_bin_val [OF b8 l8] bs(2))
    moreover have "8 * length (?b # bs) = length s"
      using bs(3) len by simp
    ultimately show ?thesis by blast
  qed
qed

lemma padded_length_dvd: "8 dvd ((n :: nat) + (8 - n mod 8) mod 8)"
proof -
  define q r where "q = n div 8" and "r = n mod 8"
  have n: "n = 8 * q + r" and lt: "r < 8" by (simp_all add: q_def r_def)
  show ?thesis
  proof (cases "r = 0")
    case True
    with n show ?thesis by (simp add: r_def [symmetric])
  next
    case False
    with lt have p: "(8 - r) mod 8 = 8 - r" by simp
    from n lt have "n + (8 - r) = 8 * (q + 1)" by simp
    then show ?thesis by (simp only: r_def [symmetric] p dvd_triv_left)
  qed
qed

section \<open>Encoding succeeds and the container is read back\<close>

lemma generate_codes_binary:
  "binary cur \<Longrightarrow> \<forall>k c. codes k = Some c \<longrightarrow> binary c \<Longrightarrow>
     generate_codes t cur codes k = Some c \<Longrightarrow> binary c"
proof (induction t cur codes arbitrary: c k rule: generate_codes.induct)
  case (1 cur codes)
  then show ?case by simp
next
  case (2 c' f l r cur codes)
  show ?case
  proof (cases c')
    case (Some b)
    with "2.prems" show ?thesis by (auto split: if_splits)
  next
    case None
    let ?codes1 = "generate_codes l (cur @ ''0'') codes"
    have b0: "binary (cur @ ''0'')" and b1: "binary (cur @ ''1'')"
      using "2.prems"(1) by simp_all
    have c1: "\<forall>k c. ?codes1 k = Some c \<longrightarrow> binary c"
      using "2.IH"(1) [OF None b0 "2.prems"(2)] by blast
    have "generate_codes r (cur @ ''1'') ?codes1 k = Some c"
      using "2.prems"(3) None by (simp add: Let_def)
    from "2.IH"(2) [OF None refl b1 c1 this] show ?thesis .
  qed
qed

lemma encode_total:
  "\<forall>b \<in> set data. unat b \<in> dom codes \<Longrightarrow>
     encode codes data = Inr (concat (map (\<lambda>b. the (codes (unat b))) data))"
  by (induction data) auto

lemma binary_concat: "\<forall>s \<in> set ss. binary s \<Longrightarrow> binary (concat ss)"
  by (induction ss) simp_all

lemma to_bytes_4: "to_bytes n 4 = (if n < 2 ^ 32 then Some (be4 n) else None)"
proof -
  have "rev [0..<4] = [3, 2, 1, 0 :: nat]" by (simp add: upt_rec)
  then show ?thesis by (simp add: to_bytes_def be4_def)
qed

lemma to_bytes_1: "to_bytes n 1 = (if n < 256 then Some [of_nat n] else None)"
  by (simp add: to_bytes_def)

lemma unat_byte_mod: "unat (of_nat (x mod 256) :: byte) = x mod 256"
  by (simp add: unat_of_nat)

lemma from_bytes_be4:
  assumes "n < 2 ^ 32"
  shows "from_bytes (be4 n) = n"
proof -
  define a1 a2 a3 where "a1 = n div 256" and "a2 = a1 div 256" and "a3 = a2 div 256"
  have d2: "n div 256 ^ 2 = a2" and d3: "n div 256 ^ 3 = a3"
    by (simp_all add: a1_def a2_def a3_def div_mult2_eq power2_eq_square power3_eq_cube)
  have "a3 < 256" using assms by (simp add: a1_def a2_def a3_def div_mult2_eq)
  then have m3: "a3 mod 256 = a3" by simp
  have e1: "n = 256 * a1 + n mod 256" by (simp add: a1_def)
  have e2: "a1 = 256 * a2 + a1 mod 256" by (simp add: a2_def)
  have e3: "a2 = 256 * a3 + a2 mod 256" by (simp add: a3_def)
  have "from_bytes (be4 n) =
        256 * (256 * (256 * (a3 mod 256) + a2 mod 256) + a1 mod 256) + n mod 256"
    by (simp only: from_bytes_def be4_def foldl.simps unat_byte_mod d2 d3 power_0 power_one_right
        div_by_1 a1_def [symmetric] mult_0_right add_0)
  also have "\<dots> = n"
    using e1 e2 e3 by (simp only: m3)
  finally show ?thesis .
qed

lemma from_bytes_single: "n < 256 \<Longrightarrow> from_bytes [of_nat n :: byte] = n"
  by (simp add: from_bytes_def unat_of_nat)

lemma be4_length [simp]: "length (be4 n) = 4"
  by (simp add: be4_def)

lemma write_table_ok:
  "\<forall>b \<in> set bs. dict_get frequency b 0 < 2 ^ 32 \<Longrightarrow>
     write_table frequency bs out =
       (None, out @ concat (map (\<lambda>b. be4 (dict_get frequency b 0)) bs))"
  by (induction bs arbitrary: out) (simp_all add: to_bytes_4)

lemma read_table_written:
  "\<forall>b \<in> set bs. g b < 2 ^ 32 \<Longrightarrow>
     read_table bs (concat (map (\<lambda>b. be4 (g b)) bs) @ rest) = (map (\<lambda>b. (b, g b)) bs, rest)"
  by (induction bs) (simp_all add: from_bytes_be4)

section \<open>The tree rebuilt from the stored table\<close>

lemma sort_cong_mset: "mset xs = mset ys \<Longrightarrow> sort xs = sort ys"
  by (metis properties_for_sort sorted_sort mset_sort)

lemma dict_get_positive_iff:
  assumes "distinct (map fst d)"
  shows "(k, v) \<in> set d \<and> 0 < v \<longleftrightarrow> dict_get d k 0 = v \<and> 0 < v"
proof -
  have "(k, v) \<in> set d \<longleftrightarrow> map_of d k = Some v" using assms by simp
  then show ?thesis by (auto simp: dict_get_def split: option.splits)
qed

text \<open>
  The dictionary that \<open>decompress\<close> reads back (every byte value of \<open>range(256)\<close> with
  its stored count) gives the same list of leaf nodes as the dictionary \<open>compress\<close>
  counted, whose keys are byte values.
\<close>

lemma leaf_nodes_table:
  assumes "distinct (map fst d)" "\<forall>k \<in> set (map fst d). k < 256"
  shows "leaf_nodes (map (\<lambda>b. (b, dict_get d b 0)) [0..<256]) = leaf_nodes d"
proof -
  let ?t = "map (\<lambda>b. (b, dict_get d b 0)) [0..<256]"
  let ?P = "\<lambda>(byte, fr). fr > (0 :: nat)"
  have dt: "distinct (filter ?P ?t)"
    by (intro distinct_filter) (simp add: distinct_map inj_on_def)
  have dd: "distinct (filter ?P d)"
    using assms(1) by (intro distinct_filter) (simp add: distinct_map)
  have "set (filter ?P ?t) = set (filter ?P d)"
  proof (intro set_eqI iffI)
    fix x assume x: "x \<in> set (filter ?P ?t)"
    obtain k v where kv: "x = (k, v)" by (cases x)
    from x kv have "dict_get d k 0 = v \<and> 0 < v" by auto
    then have "(k, v) \<in> set d \<and> 0 < v" by (rule dict_get_positive_iff [OF assms(1), THEN iffD2])
    with kv show "x \<in> set (filter ?P d)" by simp
  next
    fix x assume x: "x \<in> set (filter ?P d)"
    obtain k v where kv: "x = (k, v)" by (cases x)
    from x kv have m: "(k, v) \<in> set d \<and> 0 < v" by simp
    then have g: "dict_get d k 0 = v \<and> 0 < v" by (rule dict_get_positive_iff [OF assms(1), THEN iffD1])
    from m have "k \<in> set (map fst d)" by force
    with assms(2) have "k < 256" by blast
    with g kv show "x \<in> set (filter ?P ?t)" by auto
  qed
  with dt dd have "mset (filter ?P ?t) = mset (filter ?P d)"
    by (rule set_eq_iff_mset_eq_distinct [THEN iffD1])
  then have "sort (filter ?P ?t) = sort (filter ?P d)" by (rule sort_cong_mset)
  then have "filter ?P (sort ?t) = filter ?P (sort d)" by (simp only: filter_sort)
  then show ?thesis by (simp only: leaf_nodes_def)
qed

lemma build_huffman_tree_table:
  assumes "distinct (map fst d)" "\<forall>k \<in> set (map fst d). k < 256"
  shows "build_huffman_tree (map (\<lambda>b. (b, dict_get d b 0)) [0..<256]) = build_huffman_tree d"
  by (simp only: build_huffman_tree_leaf_nodes leaf_nodes_table [OF assms])

section \<open>Decoding an encoded bit string\<close>

lemma decode_walk_reaches:
  "reaches n p c \<Longrightarrow> char n = None \<Longrightarrow> c < 256 \<Longrightarrow>
     decode_walk root n (p @ rest) acc = decode_walk root root rest (acc @ [of_nat c])"
proof (induction p arbitrary: n)
  case Nil
  then show ?case by simp
next
  case (Cons b p)
  from Cons.prems(1) obtain m where
    m: "(if b = CHR ''0'' then left n else right n) = Some m" "reaches m p c"
    by (auto split: option.splits)
  show ?case
  proof (cases p)
    case Nil
    with m(2) have "char m = Some c" by simp
    with m(1) Nil Cons.prems(3) show ?thesis by simp
  next
    case (Cons b' p')
    with m(2) have cm: "char m = None" by simp
    from Cons.IH [OF m(2) cm Cons.prems(3)] m(1) cm show ?thesis by simp
  qed
qed

lemma decode_walk_encoded:
  "char root = None \<Longrightarrow>
   \<forall>b \<in> set data. \<exists>p. codes (unat b) = Some p \<and> reaches root p (unat b) \<Longrightarrow>
     decode_walk root root (concat (map (\<lambda>b. the (codes (unat b))) data) @ rest) acc =
       decode_walk root root rest (acc @ data)"
proof (induction data arbitrary: acc)
  case Nil
  show ?case by simp
next
  case (Cons b data)
  from Cons.prems(2) obtain p where p: "codes (unat b) = Some p" "reaches root p (unat b)"
    by auto
  have lt: "unat b < 256" using unsigned_less [of b, where 'a = nat] by simp
  have "decode_walk root root (concat (map (\<lambda>b. the (codes (unat b))) (b # data)) @ rest) acc =
        decode_walk root root (p @ (concat (map (\<lambda>b. the (codes (unat b))) data) @ rest)) acc"
    by (simp add: p(1))
  also have "\<dots> = decode_walk root root (concat (map (\<lambda>b. the (codes (unat b))) data) @ rest)
                     (acc @ [of_nat (unat b)])"
    by (rule decode_walk_reaches [OF p(2) Cons.prems(1) lt])
  also have "\<dots> = decode_walk root root rest ((acc @ [of_nat (unat b)]) @ data)"
    using Cons.prems(2) by (intro Cons.IH [OF Cons.prems(1)]) simp
  finally show ?case by simp
qed

section \<open>What compress computes for a non-empty input\<close>

lemma total_bit_length_eq: "total_bit_length data = length (encoded_bits_of data)"
proof -
  have "length (concat (map f xs)) = sum_list (map (\<lambda>b. length (f b)) xs)" for f :: "byte \<Rightarrow> string" and xs
    by (induction xs) simp_all
  then show ?thesis
    by (simp add: total_bit_length_def encoded_bits_of_def option.case_distrib [of length] cong: option.case_cong)
qed

lemma build_tree_of_data:
  assumes "data \<noteq> []"
  shows "\<exists>root. build_huffman_tree (build_frequency_table data) = Inr (Some root) \<and>
           strict_binary root \<and>
           labels root = mset (map fst (build_frequency_table data)) \<and>
           (1 < length (build_frequency_table data) \<longrightarrow> char root = None)"
proof -
  let ?ft = "build_frequency_table data"
  have ne: "filter (\<lambda>(byte, fr). fr > 0) ?ft \<noteq> []"
    using assms by (simp add: build_frequency_table_filter build_frequency_table_Nil_iff)
  have "image_mset fst (filter_mset (\<lambda>(byte, fr). fr > 0) (mset ?ft)) = mset (map fst ?ft)"
    by (simp only: labels_of_dict build_frequency_table_filter)
  with build_huffman_tree_Some [OF ne] show ?thesis
    by (simp only: build_frequency_table_filter)
qed

lemma code_table_dom:
  assumes "data \<noteq> []"
  shows "dom (code_table data) = unat ` set data"
proof -
  from build_tree_of_data [OF assms] obtain root where
    r: "build_huffman_tree (build_frequency_table data) = Inr (Some root)"
       "labels root = mset (map fst (build_frequency_table data))"
    by blast
  have "dom (code_table data) = set_mset (labels root)"
    by (simp add: code_table_def r(1) generate_codes_dom)
  also have "\<dots> = unat ` set data"
    by (simp only: r(2) set_mset_mset build_frequency_table_keys)
  finally show ?thesis .
qed

lemma code_table_binary: "code_table data k = Some c \<Longrightarrow> binary c"
proof -
  assume c: "code_table data k = Some c"
  show ?thesis
  proof (cases "build_huffman_tree (build_frequency_table data)")
    case (Inl e)
    with c show ?thesis by (simp add: code_table_def)
  next
    case (Inr root)
    with c have "generate_codes root [] Map.empty k = Some c" by (simp add: code_table_def)
    then show ?thesis by (rule generate_codes_binary [rotated 2]) simp_all
  qed
qed

lemma encoded_bits_of_binary: "binary (encoded_bits_of data)"
  unfolding encoded_bits_of_def
  by (rule binary_concat) (auto dest: code_table_binary split: option.splits)

lemma encode_code_table:
  assumes "data \<noteq> []"
  shows "encode (code_table data) data = Inr (encoded_bits_of data)"
proof -
  have d: "\<forall>b \<in> set data. unat b \<in> dom (code_table data)"
    by (simp add: code_table_dom [OF assms])
  have "map (\<lambda>b. the (code_table data (unat b))) data =
        map (\<lambda>b. case code_table data (unat b) of None \<Rightarrow> [] | Some c \<Rightarrow> c) data"
    using d by (intro map_cong refl) (auto split: option.splits)
  then show ?thesis
    using encode_total [OF d] by (simp only: encoded_bits_of_def)
qed

text \<open>
  For every non-empty input the pure part of \<open>compress\<close> succeeds: it yields the
  frequency table, the padding of the formula, and a payload whose bits are the encoded
  bits followed by the padding zeros.
\<close>

lemma huffman_encode_ok:
  assumes "data \<noteq> []"
  shows "\<exists>payload. huffman_encode data =
             Inr (build_frequency_table data, (8 - total_bit_length data mod 8) mod 8, payload) \<and>
           concat (map format_08b payload) =
             encoded_bits_of data @
               replicate ((8 - total_bit_length data mod 8) mod 8) (CHR ''0'') \<and>
           8 * length payload =
             total_bit_length data + (8 - total_bit_length data mod 8) mod 8"
proof -
  let ?bits = "encoded_bits_of data"
  let ?pad = "(8 - length ?bits mod 8) mod 8"
  let ?padded = "?bits @ replicate ?pad (CHR ''0'')"
  from build_tree_of_data [OF assms] obtain root where
    r: "build_huffman_tree (build_frequency_table data) = Inr (Some root)" by blast
  have ct: "generate_codes (Some root) [] Map.empty = code_table data"
    by (simp add: code_table_def r)
  have bp: "binary ?padded" by (simp add: encoded_bits_of_binary)
  have "8 dvd length ?padded" using padded_length_dvd [of "length ?bits"] by simp
  from pack_chunks8 [OF bp this] obtain payload where
    p: "pack (chunks8 ?padded) = Inr payload" "concat (map format_08b payload) = ?padded"
       "8 * length payload = length ?padded"
    by blast
  have "huffman_encode data = Inr (build_frequency_table data, ?pad, payload)"
    by (simp add: huffman_encode_def r ct encode_code_table [OF assms] Let_def p(1))
  with p(2,3) show ?thesis
    by (simp add: total_bit_length_eq)
qed

section \<open>The container written by compress, read by decompress\<close>

lemma write_table_result:
  "write_table frequency bs out =
     (if \<forall>b \<in> set bs. dict_get frequency b 0 < 2 ^ 32
      then (None, out @ concat (map (\<lambda>b. be4 (dict_get frequency b 0)) bs))
      else (Some OverflowError,
            out @ concat (map (\<lambda>b. be4 (dict_get frequency b 0))
                     (takeWhile (\<lambda>b. dict_get frequency b 0 < 2 ^ 32) bs))))"
  by (induction bs arbitrary: out) (simp_all add: to_bytes_4)

lemma read_table_upt:
  "i \<le> j \<Longrightarrow>
     read_table [i..<j] (drop (4 * i) input) =
       (map (\<lambda>b. (b, stored_count input b)) [i..<j], drop (4 * j) input)"
proof (induction "j - i" arbitrary: i)
  case 0
  then show ?case by simp
next
  case (Suc d)
  then have lt: "i < j" and d: "d = j - Suc i" and le: "Suc i \<le> j" by simp_all
  have "drop 4 (drop (4 * i) input) = drop (4 * Suc i) input" by (simp add: add.commute)
  with Suc.hyps(1) [OF d le] show ?case
    by (simp add: upt_conv_Cons [OF lt] stored_count_def)
qed

lemma read_table_all:
  "read_table [0..<256] input =
     (map (\<lambda>b. (b, stored_count input b)) [0..<256], drop 1024 input)"
  using read_table_upt [of 0 256 input] by simp

lemma concat_fields_length:
  "\<forall>x. length (f x) = 4 \<Longrightarrow> length (concat (map f [0..<n])) = 4 * n"
  by (induction n) simp_all

lemma concat_fields_nth:
  "\<forall>x. length (f x) = 4 \<Longrightarrow> b < n \<Longrightarrow>
     take 4 (drop (4 * b) (concat (map f [0..<n]) @ rest)) = f b"
proof (induction n arbitrary: rest)
  case 0
  then show ?case by simp
next
  case (Suc n)
  have len: "length (concat (map f [0..<n])) = 4 * n"
    by (rule concat_fields_length [OF Suc.prems(1)])
  show ?case
  proof (cases "b < n")
    case True
    from Suc.IH [OF Suc.prems(1) True, of "f n @ rest"] show ?thesis by simp
  next
    case False
    with Suc.prems(2) have "b = n" by simp
    with len Suc.prems(1) show ?thesis by simp
  qed
qed

lemma stored_count_fields:
  "\<forall>x. g x < 2 ^ 32 \<Longrightarrow> b < n \<Longrightarrow>
     stored_count (concat (map (\<lambda>b. be4 (g b)) [0..<n]) @ rest) b = g b"
proof -
  assume g: "\<forall>x. g x < 2 ^ 32" and b: "b < n"
  have "take 4 (drop (4 * b) (concat (map (\<lambda>b. be4 (g b)) [0..<n]) @ rest)) = be4 (g b)"
    by (rule concat_fields_nth [OF _ b]) simp
  then show ?thesis using g by (simp only: stored_count_def from_bytes_be4)
qed

lemma count_list_unat: "count_list (map unat data) (unat b) = count_list data (b :: byte)"
  by (induction data) (simp_all add: word_unat_eq_iff)

lemma counts_fit:
  assumes "\<forall>b. count_list data b < 2 ^ 32"
  shows "dict_get (build_frequency_table data) k 0 < 2 ^ 32"
proof (cases "k \<in> unat ` set data")
  case True
  then obtain b :: byte where "k = unat b" by auto
  with assms show ?thesis by (simp add: build_frequency_table_get count_list_unat)
next
  case False
  then have "k \<notin> set (map unat data)" by simp
  then have "count_list (map unat data) k = 0" by (simp add: count_list_0_iff)
  then show ?thesis by (simp add: build_frequency_table_get)
qed

lemma table_bytes_length [simp]: "length (table_bytes frequency) = 1024"
  using concat_fields_length [of "\<lambda>b. be4 (dict_get frequency b 0)" 256]
  by (simp add: table_bytes_def)

lemma to_bytes_Suc_0: "to_bytes n (Suc 0) = (if n < 256 then Some [of_nat n] else None)"
  using to_bytes_1 [of n] by simp

lemma write_container_ok:
  assumes "\<forall>b. dict_get frequency b 0 < 2 ^ 32" "padding < 256"
  shows "write_container frequency padding payload =
           (None, table_bytes frequency @ [of_nat padding] @ payload)"
  using assms by (simp add: write_container_def write_table_result to_bytes_Suc_0 table_bytes_def)

lemma write_container_None:
  assumes "write_container frequency padding payload = (None, c)" "padding < 256"
  shows "c = table_bytes frequency @ [of_nat padding] @ payload"
  using assms
  by (auto simp: write_container_def write_table_result to_bytes_Suc_0 table_bytes_def
      split: if_splits)

lemma compress_on_data:
  assumes "files s input_path = Some data" "data \<noteq> []"
    "huffman_encode data = Inr (frequency, padding, payload)"
  shows "compress input_path output_path s =
     (if output_path \<in> unwritable s then (Inl IoFailure, s)
      else case write_container frequency padding payload of
             (Some e, out) \<Rightarrow> (Inl e, s\<lparr>files := (files s)(output_path \<mapsto> out)\<rparr>)
           | (None, out) \<Rightarrow> (Inr (), s\<lparr>files := (files s)(output_path \<mapsto> out)\<rparr>))"
  using assms by (simp add: compress_def validate_file_path_def)

section \<open>Running compress\<close>

lemma compress_ok:
  assumes "files s input_path = Some data" "data \<noteq> []" "\<forall>b. count_list data b < 2 ^ 32"
    "output_path \<notin> unwritable s"
  shows "\<exists>payload.
           huffman_encode data =
             Inr (build_frequency_table data, (8 - total_bit_length data mod 8) mod 8, payload) \<and>
           concat (map format_08b payload) =
             encoded_bits_of data @
               replicate ((8 - total_bit_length data mod 8) mod 8) (CHR ''0'') \<and>
           compress input_path output_path s =
             (Inr (), s\<lparr>files := (files s)(output_path \<mapsto>
                table_bytes (build_frequency_table data) @
                [of_nat ((8 - total_bit_length data mod 8) mod 8)] @ payload)\<rparr>)"
proof -
  let ?pad = "(8 - total_bit_length data mod 8) mod 8"
  from huffman_encode_ok [OF assms(2)] obtain payload where
    p: "huffman_encode data = Inr (build_frequency_table data, ?pad, payload)"
       "concat (map format_08b payload) = encoded_bits_of data @ replicate ?pad (CHR ''0'')"
    by blast
  have fit: "\<forall>b. dict_get (build_frequency_table data) b 0 < 2 ^ 32"
    using counts_fit [OF assms(3)] by blast
  have "?pad < 256" by (rule less_trans [of _ 8]) simp_all
  from write_container_ok [OF fit this, of payload] assms(4)
  have "compress input_path output_path s =
          (Inr (), s\<lparr>files := (files s)(output_path \<mapsto>
             table_bytes (build_frequency_table data) @ [of_nat ?pad] @ payload)\<rparr>)"
    by (simp only: compress_on_data [OF assms(1,2) p(1)]) simp
  with p show ?thesis by blast
qed

lemma table_bytes_field:
  assumes "\<forall>b. dict_get frequency b 0 < 2 ^ 32" "b < 256"
  shows "take 4 (drop (4 * b) (table_bytes frequency @ rest)) = be4 (dict_get frequency b 0)"
    and "stored_count (table_bytes frequency @ rest) b = dict_get frequency b 0"
proof -
  show "take 4 (drop (4 * b) (table_bytes frequency @ rest)) = be4 (dict_get frequency b 0)"
    unfolding table_bytes_def by (rule concat_fields_nth [OF _ assms(2)]) simp
  show "stored_count (table_bytes frequency @ rest) b = dict_get frequency b 0"
    unfolding table_bytes_def using assms by (intro stored_count_fields) simp_all
qed

section \<open>A count that does not fit four bytes\<close>

lemma fold_incr_replicate:
  "fold (\<lambda>byte frequency. dict_incr frequency (unat byte)) (replicate n b) [(unat b, m)] =
     [(unat b, m + n)]"
  by (induction n arbitrary: m) simp_all

lemma build_frequency_table_replicate:
  "0 < n \<Longrightarrow> build_frequency_table (replicate n b) = [(unat b, n)]"
proof -
  assume "0 < n"
  then obtain n' where n: "n = Suc n'" by (cases n) auto
  show ?thesis
    using fold_incr_replicate [of n' b 1] by (simp add: build_frequency_table_def n)
qed

lemma takeWhile_upt_neq: "k < n \<Longrightarrow> takeWhile (\<lambda>b. b \<noteq> k) [0..<n] = [0..<k]"
proof -
  assume k: "k < n"
  then have "[0..<n] = [0..<k] @ k # [Suc k..<n]"
    by (metis upt_add_eq_append [of 0 k "n - k"] upt_conv_Cons le0 le_add_diff_inverse
        less_imp_le_nat)
  then show ?thesis by (simp add: takeWhile_tail)
qed

lemma concat_zero_fields: "concat (map (\<lambda>b. [0, 0, 0, 0 :: byte]) [0..<k]) = replicate (4 * k) 0"
proof (induction k)
  case 0
  show ?case by simp
next
  case (Suc k)
  have r4: "[0, 0, 0, 0 :: byte] = replicate 4 0" by (simp add: eval_nat_numeral)
  have "concat (map (\<lambda>b. [0, 0, 0, 0 :: byte]) [0..<Suc k]) = replicate (4 * k) 0 @ replicate 4 0"
    using Suc by (simp only: r4) simp
  also have "\<dots> = replicate (4 * k + 4) 0" by (simp only: replicate_add)
  finally show ?case by simp
qed

lemma write_table_overflow:
  assumes "k < 256" "2 ^ 32 \<le> n"
  shows "write_table [(k, n)] [0..<256] [] = (Some OverflowError, replicate (4 * k) 0)"
proof -
  have fits: "(dict_get [(k, n)] b 0 < 2 ^ 32) = (b \<noteq> k)" for b
    using assms(2) by (simp add: dict_get_def)
  have "\<not> (\<forall>b \<in> set [0..<256]. dict_get [(k, n)] b 0 < 2 ^ 32)"
    using assms(1) by (simp only: fits) auto
  then have "write_table [(k, n)] [0..<256] [] =
      (Some OverflowError,
       [] @ concat (map (\<lambda>b. be4 (dict_get [(k, n)] b 0))
                 (takeWhile (\<lambda>b. dict_get [(k, n)] b 0 < 2 ^ 32) [0..<256])))"
    by (simp only: write_table_result if_False)
  also have "takeWhile (\<lambda>b. dict_get [(k, n)] b 0 < 2 ^ 32) [0..<256] = [0..<k]"
    by (simp only: fits takeWhile_upt_neq [OF assms(1)])
  also have "map (\<lambda>b. be4 (dict_get [(k, n)] b 0)) [0..<k] = map (\<lambda>b. [0, 0, 0, 0]) [0..<k]"
    by (rule map_cong) (auto simp: dict_get_def be4_def)
  finally show ?thesis by (simp only: concat_zero_fields append_Nil)
qed

lemma compress_overflow:
  assumes "files s input_path = Some (replicate n b)" "2 ^ 32 \<le> n"
    "output_path \<notin> unwritable s"
  shows "compress input_path output_path s =
           (Inl OverflowError,
            s\<lparr>files := (files s)(output_path \<mapsto> replicate (4 * unat b) 0)\<rparr>)"
proof -
  from assms(2) have pos: "0 < n" by (rule less_le_trans [rotated]) simp
  then have ne: "replicate n b \<noteq> []" by simp
  have ft: "build_frequency_table (replicate n b) = [(unat b, n)]"
    by (rule build_frequency_table_replicate [OF pos])
  from huffman_encode_ok [OF ne] obtain payload pad where
    p: "huffman_encode (replicate n b) = Inr ([(unat b, n)], pad, payload)"
    by (simp only: ft) blast
  have lt: "unat b < 256" using unsigned_less [of b, where 'a = nat] by simp
  have "write_container [(unat b, n)] pad payload =
          (Some OverflowError, replicate (4 * unat b) 0)"
    by (simp add: write_container_def write_table_overflow [OF lt assms(2)])
  with assms(3) show ?thesis
    by (simp only: compress_on_data [OF assms(1) ne p]) simp
qed

section \<open>What decompress reads\<close>

lemma huffman_decode_read:
  "huffman_decode input =
     (case build_huffman_tree (map (\<lambda>b. (b, stored_count input b)) [0..<256]) of
        Inl e \<Rightarrow> Inl e
      | Inr None \<Rightarrow> Inl InvalidContainer
      | Inr (Some root) \<Rightarrow>
          decode_walk root root
            (if from_bytes (take 1 (drop 1024 input)) > 0
             then take (length (concat (map format_08b (drop 1025 input))) -
                        from_bytes (take 1 (drop 1024 input)))
                    (concat (map format_08b (drop 1025 input)))
             else concat (map format_08b (drop 1025 input))) [])"
  by (simp add: huffman_decode_def read_table_all Let_def split: sum.splits option.splits)

lemma decode_walk_not_InvalidContainer:
  "decode_walk root n bits acc \<noteq> Inl InvalidContainer"
  by (induction bits arbitrary: n acc) (auto split: option.splits)

lemma stored_table_filter_Nil:
  "filter (\<lambda>(byte, fr). fr > 0) (map (\<lambda>b. (b, stored_count input b)) [0..<256]) = [] \<longleftrightarrow>
     (\<forall>b < 256. stored_count input b = 0)"
  by (auto simp: filter_empty_conv)

lemma huffman_decode_InvalidContainer_iff:
  "huffman_decode input = Inl InvalidContainer \<longleftrightarrow> (\<forall>b < 256. stored_count input b = 0)"
proof (cases "filter (\<lambda>(byte, fr). fr > 0) (map (\<lambda>b. (b, stored_count input b)) [0..<256]) = []")
  case True
  from build_huffman_tree_None [OF True] True show ?thesis
    by (simp only: huffman_decode_read stored_table_filter_Nil) simp
next
  case False
  from build_huffman_tree_Some [OF False] obtain root where
    "build_huffman_tree (map (\<lambda>b. (b, stored_count input b)) [0..<256]) = Inr (Some root)"
    by blast
  then have "huffman_decode input \<noteq> Inl InvalidContainer"
    by (simp only: huffman_decode_read) (simp add: decode_walk_not_InvalidContainer)
  with False show ?thesis by (simp only: stored_table_filter_Nil)
qed

lemma decompress_on_input:
  "files s input_path = Some input \<Longrightarrow>
     decompress input_path output_path s =
       (case huffman_decode input of
          Inl e \<Rightarrow> (Inl e, s)
        | Inr decoded_data \<Rightarrow>
            if output_path \<in> unwritable s then (Inl IoFailure, s)
            else (Inr (), s\<lparr>files := (files s)(output_path \<mapsto> decoded_data)\<rparr>))"
  by (simp add: decompress_def validate_file_path_def)

section \<open>Decompressing what compress wrote\<close>

lemma huffman_decode_written:
  assumes "data \<noteq> []" "\<forall>b. count_list data b < 2 ^ 32"
    "concat (map format_08b payload) = encoded_bits_of data @ replicate pad (CHR ''0'')"
    "pad < 8"
    "build_huffman_tree (build_frequency_table data) = Inr (Some root)"
  shows "huffman_decode (table_bytes (build_frequency_table data) @ [of_nat pad] @ payload) =
           decode_walk root root (encoded_bits_of data) []"
proof -
  let ?ft = "build_frequency_table data"
  let ?c = "table_bytes ?ft @ [of_nat pad] @ payload"
  have fit: "\<forall>b. dict_get ?ft b 0 < 2 ^ 32" using counts_fit [OF assms(2)] by blast
  have meq: "map (\<lambda>b. (b, stored_count ?c b)) [0..<256] = map (\<lambda>b. (b, dict_get ?ft b 0)) [0..<256]"
    by (rule map_cong [OF refl]) (simp add: table_bytes_field(2) [OF fit])
  have keys: "\<forall>k \<in> set (map fst ?ft). k < 256"
    by (auto dest: build_frequency_table_positive)
  have tree: "build_huffman_tree (map (\<lambda>b. (b, stored_count ?c b)) [0..<256]) =
                         Inr (Some root)"
    by (simp only: meq build_huffman_tree_table [OF build_frequency_table_distinct keys] assms(5))
  have d1: "drop 1024 ?c = [of_nat pad] @ payload" by simp
  have d2: "drop 1025 ?c = payload" by simp
  have "pad < 256" using assms(4) by simp
  then have p: "from_bytes (take 1 (drop 1024 ?c)) = pad"
    by (simp only: d1) (simp add: from_bytes_single)
  have "(if pad > 0
         then take (length (concat (map format_08b payload)) - pad) (concat (map format_08b payload))
         else concat (map format_08b payload)) = encoded_bits_of data"
    by (simp only: assms(3)) simp
  then show ?thesis
    by (simp only: huffman_decode_read tree p d2 sum.case option.case)
qed

lemma encoded_bits_of_decode:
  assumes "char root = None"
    "\<forall>b \<in> set data. \<exists>p. code_table data' (unat b) = Some p \<and> reaches root p (unat b)"
  shows "decode_walk root root
           (concat (map (\<lambda>b. case code_table data' (unat b) of None \<Rightarrow> [] | Some c \<Rightarrow> c) data)) [] =
         Inr data"
proof -
  have meq: "map (\<lambda>b. case code_table data' (unat b) of None \<Rightarrow> [] | Some c \<Rightarrow> c) data =
        map (\<lambda>b. the (code_table data' (unat b))) data"
    using assms(2) by (intro map_cong refl) auto
  have "decode_walk root root (concat (map (\<lambda>b. the (code_table data' (unat b))) data) @ []) [] =
        decode_walk root root [] ([] @ data)"
    by (rule decode_walk_encoded [OF assms])
  then show ?thesis
    by (simp only: meq append_Nil append_Nil2 decode_walk.simps)
qed

text \<open>
  Round trip for inputs with at least two different byte values (and counts that fit):
  \<open>compress\<close> completes, and \<open>decompress\<close> of the file it wrote writes the input back,
  byte for byte.
\<close>

theorem roundtrip_two_symbols:
  assumes "files s input_path = Some data" "x \<in> set data" "y \<in> set data" "x \<noteq> y"
    "\<forall>b. count_list data b < 2 ^ 32" "huf_path \<notin> unwritable s" "output_path \<notin> unwritable s"
  shows "\<exists>s1. compress input_path huf_path s = (Inr (), s1) \<and>
           decompress huf_path output_path s1 =
             (Inr (), s1\<lparr>files := (files s1)(output_path \<mapsto> data)\<rparr>)"
proof -
  let ?ft = "build_frequency_table data"
  let ?pad = "(8 - total_bit_length data mod 8) mod 8"
  from assms(2) have ne: "data \<noteq> []" by auto
  from compress_ok [OF assms(1) ne assms(5,6)] obtain payload where
    p: "concat (map format_08b payload) = encoded_bits_of data @ replicate ?pad (CHR ''0'')"
    and run: "compress input_path huf_path s =
            (Inr (), s\<lparr>files := (files s)(huf_path \<mapsto>
               table_bytes ?ft @ [of_nat ?pad] @ payload)\<rparr>)"
    by blast
  let ?c = "table_bytes ?ft @ [of_nat ?pad] @ payload"
  let ?s1 = "s\<lparr>files := (files s)(huf_path \<mapsto> ?c)\<rparr>"
  from build_tree_of_data [OF ne] obtain root where
    r: "build_huffman_tree ?ft = Inr (Some root)"
       "labels root = mset (map fst ?ft)"
       "1 < length ?ft \<longrightarrow> char root = None"
    by blast
  have mem: "(unat b, count_list (map unat data) (unat b)) \<in> set ?ft" if "b \<in> set data" for b
    using that by (simp add: build_frequency_table_mem)
  have "unat x \<noteq> unat y" using assms(4) by (simp add: word_unat_eq_iff)
  from two_positive_items [OF mem [OF assms(2)] mem [OF assms(3)] this]
  have "1 < length ?ft"
    using assms(2,3) by (simp add: build_frequency_table_filter count_list_pos)
  with r(3) have internal: "char root = None" by simp
  have "count (mset (map fst ?ft)) k = (if k \<in> set (map fst ?ft) then 1 else 0)" for k
    by (rule distinct_count_atmost_1 [THEN iffD1, rule_format])
       (rule build_frequency_table_distinct)
  then have cnt: "\<forall>k. count (labels root) k \<le> 1"
    by (simp only: r(2)) simp
  have ct: "code_table data = generate_codes (Some root) [] Map.empty"
    by (simp add: code_table_def r(1))
  have codes: "\<forall>b \<in> set data. \<exists>p. code_table data (unat b) = Some p \<and> reaches root p (unat b)"
  proof
    fix b assume b: "b \<in> set data"
    then have "unat b \<in># labels root"
      by (simp only: r(2) set_mset_mset build_frequency_table_keys) simp
    from generate_codes_reaches [OF this cnt internal, of Map.empty]
    show "\<exists>p. code_table data (unat b) = Some p \<and> reaches root p (unat b)"
      by (simp only: ct)
  qed
  have "?pad < 8" by simp
  from huffman_decode_written [OF ne assms(5) p this r(1)]
  have "huffman_decode ?c = decode_walk root root (encoded_bits_of data) []" .
  also have "\<dots> = Inr data"
    unfolding encoded_bits_of_def by (rule encoded_bits_of_decode [OF internal codes])
  finally have dec: "huffman_decode ?c = Inr data" .
  have "files ?s1 huf_path = Some ?c" by simp
  from decompress_on_input [OF this, of output_path] dec assms(7)
  have "decompress huf_path output_path ?s1 =
          (Inr (), ?s1\<lparr>files := (files ?s1)(output_path \<mapsto> data)\<rparr>)"
    by simp
  with run show ?thesis by blast
qed

section \<open>Inputs with a single byte value\<close>

text \<open>
  With one distinct byte value the tree is a single labelled node. \<open>generate_codes\<close>
  gives it the code \<open>"0"\<close>, but the decoding loop of \<open>decompress\<close> has no such case:
  on the first bit it moves to \<open>root.left\<close>, which is \<open>None\<close>, and reading
  \<open>.char\<close> raises \<open>AttributeError\<close>, which \<open>decompress\<close> does not catch.
\<close>

lemma decode_walk_leaf:
  "decode_walk (HuffmanNode c f None None) (HuffmanNode c f None None) (x # bits) acc =
     Inl AttributeError"
  by simp

lemma single_symbol_tree:
  "0 < n \<Longrightarrow>
     build_huffman_tree (build_frequency_table (replicate n b)) =
       Inr (Some (HuffmanNode (Some (unat b)) n None None))"
  by (rule build_huffman_tree_single) (simp add: build_frequency_table_replicate)

lemma single_symbol_code_table:
  "0 < n \<Longrightarrow> code_table (replicate n b) = [unat b \<mapsto> ''0'']"
  by (simp add: code_table_def single_symbol_tree)

lemma single_symbol_bits:
  assumes "0 < n"
  shows "encoded_bits_of (replicate n b) = replicate n (CHR ''0'')"
proof -
  have "concat (map (\<lambda>x. ''0'') (replicate m b)) = replicate m (CHR ''0'')" for m
    by (induction m) simp_all
  then show ?thesis
    by (simp add: encoded_bits_of_def single_symbol_code_table [OF assms])
qed

lemma single_symbol_decode:
  assumes "0 < n" "n < 2 ^ 32"
    "concat (map format_08b payload) = encoded_bits_of (replicate n b) @ replicate pad (CHR ''0'')"
    "pad < 8"
  shows "huffman_decode (table_bytes (build_frequency_table (replicate n b)) @ [of_nat pad] @ payload) =
           Inl AttributeError"
proof -
  from assms(1) have ne: "replicate n b \<noteq> []" by simp
  have "count_list (replicate n b) x \<le> length (replicate n b)" for x
    by (rule count_le_length)
  with assms(2) have fit: "\<forall>x. count_list (replicate n b) x < 2 ^ 32"
    by (auto intro: le_less_trans)
  obtain n' where n: "n = Suc n'" using assms(1) by (cases n) auto
  have "encoded_bits_of (replicate n b) = replicate n (CHR ''0'')"
    by (rule single_symbol_bits [OF assms(1)])
  also have "\<dots> = CHR ''0'' # replicate n' (CHR ''0'')" by (simp add: n)
  finally show ?thesis
    by (simp only: huffman_decode_written [OF ne fit assms(3,4) single_symbol_tree [OF assms(1)]]
        decode_walk_leaf)
qed

lemma single_symbol_roundtrip_fails:
  assumes "0 < n" "n < 2 ^ 32" "files s input_path = Some (replicate n b)"
    "huf_path \<notin> unwritable s"
  shows "\<exists>s1 c. compress input_path huf_path s = (Inr (), s1) \<and>
           s1 = s\<lparr>files := (files s)(huf_path \<mapsto> c)\<rparr> \<and>
           decompress huf_path output_path s1 = (Inl AttributeError, s1)"
proof -
  let ?data = "replicate n b"
  let ?pad = "(8 - total_bit_length ?data mod 8) mod 8"
  from assms(1) have ne: "?data \<noteq> []" by simp
  have "count_list ?data x \<le> length ?data" for x by (rule count_le_length)
  with assms(2) have fit: "\<forall>x. count_list ?data x < 2 ^ 32"
    by (auto intro: le_less_trans)
  from compress_ok [OF assms(3) ne fit assms(4)] obtain payload where
    p: "concat (map format_08b payload) = encoded_bits_of ?data @ replicate ?pad (CHR ''0'')"
    and run: "compress input_path huf_path s =
            (Inr (), s\<lparr>files := (files s)(huf_path \<mapsto>
               table_bytes (build_frequency_table ?data) @ [of_nat ?pad] @ payload)\<rparr>)"
    by blast
  let ?c = "table_bytes (build_frequency_table ?data) @ [of_nat ?pad] @ payload"
  let ?s1 = "s\<lparr>files := (files s)(huf_path \<mapsto> ?c)\<rparr>"
  have "?pad < 8" by simp
  from single_symbol_decode [OF assms(1,2) p this]
  have dec: "huffman_decode ?c = Inl AttributeError" .
  have "files ?s1 huf_path = Some ?c" by simp
  from decompress_on_input [OF this, of output_path] dec
  have "decompress huf_path output_path ?s1 = (Inl AttributeError, ?s1)" by simp
  with run show ?thesis by blast
qed

lemma format_08b_length: "length (format_08b b) = 8"
  by (simp add: format_08b_def)

lemma payload_bits_length: "length (concat (map format_08b payload)) = 8 * length payload"
  by (induction payload) (simp_all add: format_08b_length)

section \<open>The example of the specification\<close>

text \<open>
  The input \<open>41 41 42\<close>: the node of \<open>0x42\<close> (weight 1) is popped first and becomes the
  left child, so \<open>0x42\<close> has the code \<open>0\<close> and \<open>0x41\<close> the code \<open>1\<close>; the bits
  \<open>110\<close> are padded with five zeros to the byte \<open>0xC0\<close>.
\<close>

lemma example_tree:
  "build_huffman_tree [(65, 2), (66, 1)] =
     Inr (Some (HuffmanNode None 3 (Some (HuffmanNode (Some 66) 1 None None))
                  (Some (HuffmanNode (Some 65) 2 None None))))"
  by code_simp

lemma example_encode: "huffman_encode [0x41, 0x41, 0x42] = Inr ([(65, 2), (66, 1)], 5, [192])"
  by code_simp

lemma example_total_bit_length: "total_bit_length [0x41, 0x41, 0x42] = 3"
  by code_simp

lemma example_single_encode: "huffman_encode [0x41] = Inr ([(65, 1)], 7, [0])"
  by code_simp

lemma roundtrip_two_symbols_example:
  "\<exists>s1. compress ''in'' ''a.huf'' \<lparr>files = [''in'' \<mapsto> [0x41, 0x41, 0x42]], unwritable = {}\<rparr> =
           (Inr (), s1) \<and>
         decompress ''a.huf'' ''out'' s1 =
           (Inr (), s1\<lparr>files := (files s1)(''out'' \<mapsto> [0x41, 0x41, 0x42])\<rparr>)"
  by (rule roundtrip_two_symbols [of _ _ _ "0x41" "0x42"]) simp_all

section \<open>The claims\<close>

subsection \<open>C1\<close>

text \<open>
  C1 at the one-byte input \<open>0x41\<close>. \<open>compress\<close> completes and writes the table
  (count 1 for byte value 65), the padding byte 7 and the payload byte 0; \<open>decompress\<close>
  of that container raises \<open>AttributeError\<close> and writes no output file, so the round
  trip does not give the input back. (For inputs with two different byte values it does:
  \<open>roundtrip_two_symbols\<close>.)
\<close>

theorem C1_roundtrip_fails_single_byte:
  "compress ''in'' ''a.huf'' \<lparr>files = [''in'' \<mapsto> [0x41]], unwritable = {}\<rparr> =
     (Inr (), \<lparr>files = [''in'' \<mapsto> [0x41], ''a.huf'' \<mapsto> table_bytes [(65, 1)] @ [7, 0]],
               unwritable = {}\<rparr>) \<and>
   decompress ''a.huf'' ''out''
     \<lparr>files = [''in'' \<mapsto> [0x41], ''a.huf'' \<mapsto> table_bytes [(65, 1)] @ [7, 0]],
      unwritable = {}\<rparr> =
     (Inl AttributeError,
      \<lparr>files = [''in'' \<mapsto> [0x41], ''a.huf'' \<mapsto> table_bytes [(65, 1)] @ [7, 0]],
       unwritable = {}\<rparr>)"
proof -
  let ?s = "\<lparr>files = [''in'' \<mapsto> [0x41 :: byte]], unwritable = {}\<rparr>"
  let ?c = "table_bytes [(65, 1)] @ [7, 0 :: byte]"
  let ?s1 = "\<lparr>files = [''in'' \<mapsto> [0x41 :: byte], ''a.huf'' \<mapsto> ?c], unwritable = {}\<rparr>"
  have fit: "\<forall>b. dict_get [(65, 1)] b 0 < 2 ^ 32" by (simp add: dict_get_def)
  have w: "write_container [(65, 1)] 7 [0] = (None, ?c)"
    using write_container_ok [OF fit, of 7 "[0]"] by simp
  have f: "files ?s ''in'' = Some [0x41]" by simp
  have ne: "[0x41 :: byte] \<noteq> []" by simp
  note c0 = compress_on_data [OF f ne example_single_encode, of "''a.huf''"]
  have run: "compress ''in'' ''a.huf'' ?s = (Inr (), ?s1)"
    by (simp only: c0 w) simp
  have ft: "build_frequency_table (replicate 1 (0x41 :: byte)) = [(65, 1)]"
    using build_frequency_table_replicate [of 1 "0x41 :: byte"] by simp
  have bits: "concat (map format_08b [0]) =
              encoded_bits_of (replicate 1 (0x41 :: byte)) @ replicate 7 (CHR ''0'')"
  proof -
    have "encoded_bits_of (replicate 1 (0x41 :: byte)) = replicate 1 (CHR ''0'')"
      by (rule single_symbol_bits) simp
    then show ?thesis by (simp only:) (simp add: format_08b_def upt_rec eval_nat_numeral)
  qed
  have "huffman_decode (table_bytes (build_frequency_table (replicate 1 (0x41 :: byte))) @
          [of_nat 7] @ [0]) = Inl AttributeError"
    by (rule single_symbol_decode [OF _ _ bits]) simp_all
  then have dec: "huffman_decode ?c = Inl AttributeError" by (simp only: ft) simp
  have "files ?s1 ''a.huf'' = Some ?c" by simp
  from decompress_on_input [OF this, of "''out''"] dec
  have "decompress ''a.huf'' ''out'' ?s1 = (Inl AttributeError, ?s1)" by simp
  with run show ?thesis by (rule conjI)
qed

subsection \<open>C2\<close>

text \<open>
  C2, at every input it speaks of (with a count that fits): for every byte value \<open>b\<close>
  and every length \<open>1 \<le> n < 2^32\<close>, \<open>compress\<close> writes a container for \<open>n\<close>
  copies of \<open>b\<close>, and \<open>decompress\<close> of that container raises \<open>AttributeError\<close> and
  writes nothing, instead of giving the \<open>n\<close> copies back.
\<close>

theorem C2_single_symbol_decode_fails:
  assumes "0 < n" "n < 2 ^ 32" "files s input_path = Some (replicate n b)"
    "huf_path \<notin> unwritable s"
  shows "\<exists>s1. compress input_path huf_path s = (Inr (), s1) \<and>
           decompress huf_path output_path s1 = (Inl AttributeError, s1)"
  using single_symbol_roundtrip_fails [OF assms] by blast

theorem C2_single_symbol_decode_fails_witness:
  "(0 :: nat) < 3 \<and> (3 :: nat) < 2 ^ 32 \<and>
   files \<lparr>files = [''in'' \<mapsto> replicate 3 0x41], unwritable = {}\<rparr> ''in'' =
     Some (replicate 3 0x41) \<and>
   ''a.huf'' \<notin> unwritable \<lparr>files = [''in'' \<mapsto> replicate 3 (0x41 :: byte)], unwritable = {}\<rparr> \<and>
   (\<exists>s1. compress ''in'' ''a.huf'' \<lparr>files = [''in'' \<mapsto> replicate 3 0x41], unwritable = {}\<rparr> =
            (Inr (), s1) \<and>
      decompress ''a.huf'' ''out'' s1 = (Inl AttributeError, s1))"
proof -
  let ?s = "\<lparr>files = [''in'' \<mapsto> replicate 3 (0x41 :: byte)], unwritable = {}\<rparr>"
  have h: "(0 :: nat) < 3" "(3 :: nat) < 2 ^ 32" "files ?s ''in'' = Some (replicate 3 0x41)"
    "''a.huf'' \<notin> unwritable ?s"
    by simp_all
  note c = C2_single_symbol_decode_fails [OF h, of "''out''"]
  show ?thesis by (rule conjI h c)+
qed

subsection \<open>C3\<close>

text \<open>
  C3. The file \<open>compress\<close> writes is a function of the input bytes alone: two runs on
  the same non-empty data, from any two file systems and under any path names, report
  the same result and leave the same bytes (table, padding byte and payload) in their
  output files.
\<close>

theorem C3_determinism:
  assumes "files s1 in1 = Some data" "files s2 in2 = Some data" "data \<noteq> []"
    "out1 \<notin> unwritable s1" "out2 \<notin> unwritable s2"
  shows "fst (compress in1 out1 s1) = fst (compress in2 out2 s2) \<and>
         files (snd (compress in1 out1 s1)) out1 = files (snd (compress in2 out2 s2)) out2 \<and>
         files (snd (compress in1 out1 s1)) out1 \<noteq> None"
proof -
  from huffman_encode_ok [OF assms(3)] obtain ft pad payload where
    p: "huffman_encode data = Inr (ft, pad, payload)" by blast
  obtain r c where w: "write_container ft pad payload = (r, c)"
    by (cases "write_container ft pad payload")
  have 1: "fst (compress in1 out1 s1) = (case r of Some e \<Rightarrow> Inl e | None \<Rightarrow> Inr ()) \<and>
           files (snd (compress in1 out1 s1)) out1 = Some c"
    using assms(4) w by (simp only: compress_on_data [OF assms(1,3) p]) (simp split: option.splits)
  have 2: "fst (compress in2 out2 s2) = (case r of Some e \<Rightarrow> Inl e | None \<Rightarrow> Inr ()) \<and>
           files (snd (compress in2 out2 s2)) out2 = Some c"
    using assms(5) w by (simp only: compress_on_data [OF assms(2,3) p]) (simp split: option.splits)
  from 1 2 show ?thesis by simp
qed

theorem C3_determinism_witness:
  "files \<lparr>files = [''a'' \<mapsto> [0x41, 0x41, 0x42]], unwritable = {}\<rparr> ''a'' =
     Some [0x41, 0x41, 0x42] \<and>
   files \<lparr>files = [''b'' \<mapsto> [0x41, 0x41, 0x42], ''c'' \<mapsto> [7]], unwritable = {''d''}\<rparr> ''b'' =
     Some [0x41, 0x41, 0x42] \<and>
   [0x41, 0x41, 0x42 :: byte] \<noteq> [] \<and>
   ''x'' \<notin> unwritable \<lparr>files = [''a'' \<mapsto> [0x41, 0x41, 0x42 :: byte]], unwritable = {}\<rparr> \<and>
   ''y'' \<notin> unwritable
     \<lparr>files = [''b'' \<mapsto> [0x41, 0x41, 0x42 :: byte], ''c'' \<mapsto> [7]], unwritable = {''d''}\<rparr> \<and>
   files (snd (compress ''a'' ''x''
     \<lparr>files = [''a'' \<mapsto> [0x41, 0x41, 0x42]], unwritable = {}\<rparr>)) ''x'' =
   files (snd (compress ''b'' ''y''
     \<lparr>files = [''b'' \<mapsto> [0x41, 0x41, 0x42], ''c'' \<mapsto> [7]], unwritable = {''d''}\<rparr>)) ''y''"
proof -
  let ?s1 = "\<lparr>files = [''a'' \<mapsto> [0x41, 0x41, 0x42 :: byte]], unwritable = {}\<rparr>"
  let ?s2 = "\<lparr>files = [''b'' \<mapsto> [0x41, 0x41, 0x42 :: byte], ''c'' \<mapsto> [7]], unwritable = {''d''}\<rparr>"
  have h: "files ?s1 ''a'' = Some [0x41, 0x41, 0x42]" "files ?s2 ''b'' = Some [0x41, 0x41, 0x42]"
    "[0x41, 0x41, 0x42 :: byte] \<noteq> []" "''x'' \<notin> unwritable ?s1" "''y'' \<notin> unwritable ?s2"
    by simp_all
  from C3_determinism [OF h] h show ?thesis by blast
qed

subsection \<open>C4\<close>

text \<open>
  C4 as stated, for every non-empty input, fails on an input with \<open>2^32\<close> copies of
  the byte \<open>0x41\<close>: \<open>to_bytes(4, 'big')\<close> raises \<open>OverflowError\<close> at byte value 65,
  and the file left behind is the 260 zero bytes written before, with no byte at offset
  1024.
\<close>

theorem C4_overflow_counterexample:
  "compress ''in'' ''out''
     \<lparr>files = [''in'' \<mapsto> replicate 4294967296 0x41], unwritable = {}\<rparr> =
   (Inl OverflowError,
    \<lparr>files = [''in'' \<mapsto> replicate 4294967296 0x41, ''out'' \<mapsto> replicate 260 0],
     unwritable = {}\<rparr>)"
proof -
  let ?s = "\<lparr>files = [''in'' \<mapsto> replicate 4294967296 (0x41 :: byte)], unwritable = {}\<rparr>"
  have "files ?s ''in'' = Some (replicate 4294967296 0x41)" by simp
  moreover have "(2 :: nat) ^ 32 \<le> 4294967296" by simp
  moreover have "''out'' \<notin> unwritable ?s" by simp
  ultimately have "compress ''in'' ''out'' ?s =
      (Inl OverflowError, ?s\<lparr>files := (files ?s)(''out'' \<mapsto> replicate (4 * unat (0x41 :: byte)) 0)\<rparr>)"
    by (rule compress_overflow)
  then show ?thesis by simp
qed

text \<open>
  C4, for inputs whose counts fit four bytes. The file that \<open>compress\<close> writes is the
  1024 bytes of the table, then exactly one padding byte, then the packed payload and
  nothing else. The four bytes at offset \<open>4 * b\<close> are the big-endian count of byte
  value \<open>b\<close> (what \<open>to_bytes\<close> gives for it, and \<open>from_bytes\<close> reads it back; the
  count of an absent byte value is zero); the byte at offset 1024 is the padding; the
  bytes from offset 1025 on are the \<open>encoded_bytes\<close> that \<open>compress\<close> packed, whose
  bits are the codes of the input bytes in input order followed by the padding zeros.
\<close>

theorem C4_container_layout:
  assumes "files s input_path = Some data" "data \<noteq> []" "\<forall>b. count_list data b < 2 ^ 32"
    "output_path \<notin> unwritable s"
  shows "\<exists>c payload.
           compress input_path output_path s =
             (Inr (), s\<lparr>files := (files s)(output_path \<mapsto> c)\<rparr>) \<and>
           huffman_encode data =
             Inr (build_frequency_table data, (8 - total_bit_length data mod 8) mod 8, payload) \<and>
           concat (map format_08b payload) =
             encoded_bits_of data @
               replicate ((8 - total_bit_length data mod 8) mod 8) (CHR ''0'') \<and>
           8 * length payload =
             total_bit_length data + (8 - total_bit_length data mod 8) mod 8 \<and>
           c = concat (map (\<lambda>b. be4 (count_list (map unat data) b)) [0..<256]) @
               [of_nat ((8 - total_bit_length data mod 8) mod 8)] @ payload \<and>
           length c = 1025 + length payload \<and>
           unat (c ! 1024) = (8 - total_bit_length data mod 8) mod 8 \<and>
           drop 1025 c = payload \<and>
           (\<forall>b < 256.
              take 4 (drop (4 * b) c) = be4 (count_list (map unat data) b) \<and>
              to_bytes (count_list (map unat data) b) 4 =
                Some (be4 (count_list (map unat data) b)) \<and>
              from_bytes (take 4 (drop (4 * b) c)) = count_list (map unat data) b)"
proof -
  let ?ft = "build_frequency_table data"
  let ?pad = "(8 - total_bit_length data mod 8) mod 8"
  from compress_ok [OF assms] obtain payload where
    enc: "huffman_encode data = Inr (?ft, ?pad, payload)"
    and bits: "concat (map format_08b payload) =
                 encoded_bits_of data @ replicate ?pad (CHR ''0'')"
    and run: "compress input_path output_path s =
            (Inr (), s\<lparr>files := (files s)(output_path \<mapsto>
               table_bytes ?ft @ [of_nat ?pad] @ payload)\<rparr>)"
    by blast
  let ?c = "table_bytes ?ft @ [of_nat ?pad] @ payload"
  have "8 * length payload = length (concat (map format_08b payload))"
    by (simp only: payload_bits_length)
  also have "\<dots> = total_bit_length data + ?pad"
    by (simp only: bits length_append length_replicate total_bit_length_eq)
  finally have plen: "8 * length payload = total_bit_length data + ?pad" .
  have fit: "\<forall>b. dict_get ?ft b 0 < 2 ^ 32"
    using counts_fit [OF assms(3)] by blast
  have tb: "table_bytes ?ft = concat (map (\<lambda>b. be4 (count_list (map unat data) b)) [0..<256])"
    by (simp only: table_bytes_def build_frequency_table_get)
  have c: "?c = concat (map (\<lambda>b. be4 (count_list (map unat data) b)) [0..<256]) @
               [of_nat ?pad] @ payload"
    by (simp only: tb)
  have len: "length ?c = 1025 + length payload" by simp
  have "?pad < 8" by simp
  then have "unat (of_nat ?pad :: byte) = ?pad" by (simp add: unat_of_nat)
  then have pad: "unat (?c ! 1024) = ?pad" by (simp add: nth_append)
  have pl: "drop 1025 ?c = payload" by simp
  have fld: "take 4 (drop (4 * b) ?c) = be4 (count_list (map unat data) b) \<and>
             to_bytes (count_list (map unat data) b) 4 = Some (be4 (count_list (map unat data) b)) \<and>
             from_bytes (take 4 (drop (4 * b) ?c)) = count_list (map unat data) b"
    if b: "b < 256" for b
  proof -
    have lt: "count_list (map unat data) b < 2 ^ 32"
      using fit by (simp only: build_frequency_table_get)
    have "take 4 (drop (4 * b) ?c) = be4 (dict_get ?ft b 0)"
      by (rule table_bytes_field(1) [OF fit b])
    then have t: "take 4 (drop (4 * b) ?c) = be4 (count_list (map unat data) b)"
      by (simp only: build_frequency_table_get)
    have "from_bytes (take 4 (drop (4 * b) ?c)) = count_list (map unat data) b"
      by (simp only: t from_bytes_be4 [OF lt])
    with t lt show ?thesis by (simp add: to_bytes_4)
  qed
  show ?thesis
    apply (rule exI [of _ ?c], rule exI [of _ payload])
    apply (intro conjI)
            apply (rule run)
           apply (rule enc)
          apply (rule bits)
         apply (rule plen)
        apply (rule c)
       apply (rule len)
      apply (rule pad)
     apply (rule pl)
    using fld apply blast
    done
qed

theorem C4_container_layout_witness:
  "files \<lparr>files = [''in'' \<mapsto> [0x41, 0x41, 0x42]], unwritable = {}\<rparr> ''in'' =
     Some [0x41, 0x41, 0x42] \<and>
   [0x41, 0x41, 0x42 :: byte] \<noteq> [] \<and>
   (\<forall>b. count_list [0x41, 0x41, 0x42 :: byte] b < 2 ^ 32) \<and>
   ''out'' \<notin> unwritable \<lparr>files = [''in'' \<mapsto> [0x41, 0x41, 0x42 :: byte]], unwritable = {}\<rparr> \<and>
   (\<exists>c. files (snd (compress ''in'' ''out''
            \<lparr>files = [''in'' \<mapsto> [0x41, 0x41, 0x42]], unwritable = {}\<rparr>)) ''out'' = Some c \<and>
      take 4 (drop (4 * 65) c) = [0, 0, 0, 2] \<and>
      take 4 (drop (4 * 66) c) = [0, 0, 0, 1] \<and>
      take 4 (drop (4 * 67) c) = [0, 0, 0, 0] \<and>
      length c = 1026 \<and>
      drop 1024 c = [5, 192])"
proof -
  let ?D = "[0x41, 0x41, 0x42 :: byte]"
  let ?s = "\<lparr>files = [''in'' \<mapsto> ?D], unwritable = {}\<rparr>"
  have h: "files ?s ''in'' = Some ?D" "?D \<noteq> []"
    "\<forall>b. count_list ?D b < 2 ^ 32" "''out'' \<notin> unwritable ?s"
    by simp_all
  from C4_container_layout [OF h] obtain c payload where
    c: "compress ''in'' ''out'' ?s = (Inr (), ?s\<lparr>files := (files ?s)(''out'' \<mapsto> c)\<rparr>)"
       "huffman_encode ?D =
          Inr (build_frequency_table ?D, (8 - total_bit_length ?D mod 8) mod 8, payload)"
       "c = concat (map (\<lambda>b. be4 (count_list (map unat ?D) b)) [0..<256]) @
            [of_nat ((8 - total_bit_length ?D mod 8) mod 8)] @ payload"
       "length c = 1025 + length payload"
       "\<forall>b < 256. take 4 (drop (4 * b) c) = be4 (count_list (map unat ?D) b)"
    by blast
  from c(2) have payload: "payload = [192]" by (simp only: example_encode) simp
  have pad: "(of_nat ((8 - total_bit_length ?D mod 8) mod 8) :: byte) = 5"
    by (simp only: example_total_bit_length) simp
  have len: "length (concat (map (\<lambda>b. be4 (count_list (map unat ?D) b)) [0..<256])) = 1024"
    using concat_fields_length [of "\<lambda>b. be4 (count_list (map unat ?D) b)" 256] by simp
  have "files (snd (compress ''in'' ''out'' ?s)) ''out'' = Some c"
    by (simp only: c(1)) simp
  moreover have "take 4 (drop (4 * 65) c) = [0, 0, 0, 2]"
    using c(5) [rule_format, of 65] by (simp add: be4_def)
  moreover have "take 4 (drop (4 * 66) c) = [0, 0, 0, 1]"
    using c(5) [rule_format, of 66] by (simp add: be4_def)
  moreover have "take 4 (drop (4 * 67) c) = [0, 0, 0, 0]"
    using c(5) [rule_format, of 67] by (simp add: be4_def)
  moreover have "length c = 1026" using c(4) payload by simp
  moreover have "drop 1024 c = [5, 192]"
    using len by (simp only: c(3) payload pad) simp
  ultimately show ?thesis using h by blast
qed

subsection \<open>C5\<close>

text \<open>
  C5. A node orders strictly before another exactly when its weight is smaller, or the
  weights are equal and its tie-break key is smaller; the key of a labelled node is its
  byte value, the key of an unlabelled node is 256, above the value of every byte.
\<close>

theorem C5_node_ordering:
  "(lt a b \<longleftrightarrow>
      freq a < freq b \<or> (freq a = freq b \<and> tie_break_key a < tie_break_key b)) \<and>
   tie_break_key (HuffmanNode (Some c) f l r) = c \<and>
   tie_break_key (HuffmanNode None f l r) = 256 \<and>
   unat (x :: byte) < tie_break_key (HuffmanNode None f l r)"
proof -
  have "unat x < 2 ^ LENGTH(8)" by (rule unsigned_less)
  then show ?thesis by (auto simp: lt_def tie_break_key_def Let_def)
qed

subsection \<open>C6\<close>

text \<open>
  C6. For a frequency table (a dictionary: no key twice) with a non-zero count, the tree
  is built, the code table generated from it has exactly the byte values with a non-zero
  count as its keys, and the code of one byte value is never a prefix of the code of
  another (so neither a proper prefix nor equal).
\<close>

theorem C6_prefix_code:
  assumes "distinct (map fst frequency)" "(k, f) \<in> set frequency" "0 < f"
  shows "\<exists>root. build_huffman_tree frequency = Inr (Some root) \<and>
           dom (generate_codes (Some root) [] Map.empty) =
             {b. \<exists>n. (b, n) \<in> set frequency \<and> 0 < n} \<and>
           (\<forall>a b ca cb. a \<noteq> b \<and> generate_codes (Some root) [] Map.empty a = Some ca \<and>
              generate_codes (Some root) [] Map.empty b = Some cb \<longrightarrow> \<not> prefix ca cb)"
proof -
  let ?L = "image_mset fst (filter_mset (\<lambda>(byte, fr). fr > 0) (mset frequency))"
  from assms(2,3) have "(k, f) \<in> set (filter (\<lambda>(byte, fr). fr > 0) frequency)" by simp
  then have "filter (\<lambda>(byte, fr). fr > 0) frequency \<noteq> []" by (metis empty_iff empty_set)
  from build_huffman_tree_Some [OF this] obtain root where
    r: "build_huffman_tree frequency = Inr (Some root)" "labels root = ?L"
    by blast
  let ?codes = "generate_codes (Some root) [] Map.empty"
  have cnt: "\<forall>x. count (labels root) x \<le> 1"
    by (simp only: r(2)) (rule allI, rule labels_of_dict_count [OF assms(1)])
  have dom: "dom ?codes = set_mset (labels root)"
    by (simp add: generate_codes_dom)
  have pf: "\<not> prefix ca cb" if ab: "a \<noteq> b" and a: "?codes a = Some ca" and b: "?codes b = Some cb"
    for a b ca cb
  proof (cases "char root")
    case None
    from a b dom have ia: "a \<in># labels root" and ib: "b \<in># labels root" by auto
    from generate_codes_reaches [OF ia cnt None, of Map.empty] a
    have ra: "reaches root ca a" by auto
    from generate_codes_reaches [OF ib cnt None, of Map.empty] b
    have rb: "reaches root cb b" by auto
    show ?thesis
    proof
      assume "prefix ca cb"
      then obtain q where "cb = ca @ q" by (auto simp: prefix_def)
      with reaches_unique [OF ra, of q b] rb ab show False by simp
    qed
  next
    case (Some c)
    then have "labels root = {#c#}" by (cases root) simp
    with a b dom have "a = c" "b = c" by auto
    with ab show ?thesis by simp
  qed
  have "dom ?codes = {b. \<exists>n. (b, n) \<in> set frequency \<and> 0 < n}"
    by (simp only: dom r(2) labels_of_dict_set)
  moreover have "\<forall>a b ca cb. a \<noteq> b \<and> ?codes a = Some ca \<and> ?codes b = Some cb \<longrightarrow> \<not> prefix ca cb"
    using pf by blast
  ultimately show ?thesis using r(1) by (intro exI [of _ root] conjI)
qed

theorem C6_prefix_code_witness:
  "distinct (map fst [(65 :: nat, 2 :: nat), (66, 1)]) \<and>
   (65, 2) \<in> set [(65 :: nat, 2 :: nat), (66, 1)] \<and> (0 :: nat) < 2 \<and>
   (\<exists>root. build_huffman_tree [(65, 2), (66, 1)] = Inr (Some root) \<and>
      dom (generate_codes (Some root) [] Map.empty) =
        {b. \<exists>n. (b, n) \<in> set [(65, 2 :: nat), (66, 1)] \<and> 0 < n} \<and>
      (\<forall>a b ca cb. a \<noteq> b \<and> generate_codes (Some root) [] Map.empty a = Some ca \<and>
         generate_codes (Some root) [] Map.empty b = Some cb \<longrightarrow> \<not> prefix ca cb))"
proof -
  have h: "distinct (map fst [(65 :: nat, 2 :: nat), (66, 1)])"
    "(65, 2) \<in> set [(65 :: nat, 2 :: nat), (66, 1)]" "(0 :: nat) < 2"
    by simp_all
  note c = C6_prefix_code [OF h]
  show ?thesis by (rule conjI h c)+
qed

subsection \<open>C7\<close>

text \<open>
  C7. For every non-empty input the padding that \<open>compress\<close> computes is
  \<open>(8 - total_bit_length % 8) % 8\<close>, where the total bit length is the sum of the
  lengths of the codes of the input bytes; it is below eight, it makes the bit string a
  multiple of eight long, and the packed payload holds exactly that many bits. Whenever
  \<open>compress\<close> completes, the byte at offset 1024 of the container holds that padding.
\<close>

theorem C7_padding:
  assumes "files s input_path = Some data" "data \<noteq> []"
  shows "\<exists>payload.
           huffman_encode data =
             Inr (build_frequency_table data, (8 - total_bit_length data mod 8) mod 8, payload) \<and>
           (8 - total_bit_length data mod 8) mod 8 < 8 \<and>
           8 dvd (total_bit_length data + (8 - total_bit_length data mod 8) mod 8) \<and>
           length (concat (map format_08b payload)) =
             total_bit_length data + (8 - total_bit_length data mod 8) mod 8 \<and>
           (\<forall>s'. compress input_path output_path s = (Inr (), s') \<longrightarrow>
              (\<exists>c. files s' output_path = Some c \<and> 1024 < length c \<and>
                 unat (c ! 1024) = (8 - total_bit_length data mod 8) mod 8))"
proof -
  let ?pad = "(8 - total_bit_length data mod 8) mod 8"
  from huffman_encode_ok [OF assms(2)] obtain payload where
    p: "huffman_encode data = Inr (build_frequency_table data, ?pad, payload)"
       "concat (map format_08b payload) = encoded_bits_of data @ replicate ?pad (CHR ''0'')"
    by blast
  have lt: "?pad < 8" by simp
  have dv: "8 dvd (total_bit_length data + ?pad)" by (rule padded_length_dvd)
  have len: "length (concat (map format_08b payload)) = total_bit_length data + ?pad"
    by (simp only: p(2) length_append length_replicate total_bit_length_eq)
  have st: "\<exists>c. files s' output_path = Some c \<and> 1024 < length c \<and> unat (c ! 1024) = ?pad"
    if run: "compress input_path output_path s = (Inr (), s')" for s'
  proof -
    from run obtain c where
      w: "write_container (build_frequency_table data) ?pad payload = (None, c)"
      and s': "s' = s\<lparr>files := (files s)(output_path \<mapsto> c)\<rparr>"
      by (simp only: compress_on_data [OF assms p(1)])
         (auto split: if_splits prod.splits option.splits)
    have "?pad < 256" using lt by simp
    from write_container_None [OF w this]
    have c: "c = table_bytes (build_frequency_table data) @ [of_nat ?pad] @ payload" .
    have "c ! 1024 = (of_nat ?pad :: byte)"
      by (simp only: c) (simp add: nth_append)
    moreover have "unat (of_nat ?pad :: byte) = ?pad"
      using lt by (simp add: unat_of_nat)
    moreover have "1024 < length c" by (simp only: c) simp
    ultimately show ?thesis using s' by simp
  qed
  from p(1) lt dv len st show ?thesis by blast
qed

theorem C7_padding_witness:
  "files \<lparr>files = [''in'' \<mapsto> [0x41, 0x41, 0x42]], unwritable = {}\<rparr> ''in'' =
     Some [0x41, 0x41, 0x42] \<and>
   [0x41, 0x41, 0x42 :: byte] \<noteq> [] \<and>
   fst (compress ''in'' ''out'' \<lparr>files = [''in'' \<mapsto> [0x41, 0x41, 0x42]], unwritable = {}\<rparr>) =
     Inr () \<and>
   (\<exists>c. files (snd (compress ''in'' ''out''
            \<lparr>files = [''in'' \<mapsto> [0x41, 0x41, 0x42]], unwritable = {}\<rparr>)) ''out'' = Some c \<and>
      1024 < length c \<and> unat (c ! 1024) = 5)"
proof -
  let ?s = "\<lparr>files = [''in'' \<mapsto> [0x41, 0x41, 0x42 :: byte]], unwritable = {}\<rparr>"
  have h: "files ?s ''in'' = Some [0x41, 0x41, 0x42]" "[0x41, 0x41, 0x42 :: byte] \<noteq> []"
    by simp_all
  have fit: "\<forall>b. count_list [0x41, 0x41, 0x42 :: byte] b < 2 ^ 32" by simp
  have w: "''out'' \<notin> unwritable ?s" by simp
  from compress_ok [OF h fit w] have ok: "fst (compress ''in'' ''out'' ?s) = Inr ()" by auto
  then have run: "compress ''in'' ''out'' ?s = (Inr (), snd (compress ''in'' ''out'' ?s))"
    by (metis prod.collapse)
  from C7_padding [OF h, of "''out''"] run
  have "\<exists>c. files (snd (compress ''in'' ''out'' ?s)) ''out'' = Some c \<and> 1024 < length c \<and>
          unat (c ! 1024) = (8 - total_bit_length [0x41, 0x41, 0x42] mod 8) mod 8"
    by blast
  then have "\<exists>c. files (snd (compress ''in'' ''out'' ?s)) ''out'' = Some c \<and> 1024 < length c \<and>
          unat (c ! 1024) = 5"
    by (simp only: example_total_bit_length) simp
  with h ok show ?thesis by (intro conjI)
qed

subsection \<open>C8\<close>

text \<open>
  C8. Compressing a source file of length zero reports the empty input and leaves the
  file system as it was: no output file is created or changed.
\<close>

theorem C8_empty_input:
  "files s input_path = Some [] \<Longrightarrow> compress input_path output_path s = (Inl EmptyInput, s)"
  by (simp add: compress_def validate_file_path_def)

theorem C8_empty_input_witness:
  "files \<lparr>files = [''in'' \<mapsto> []], unwritable = {}\<rparr> ''in'' = Some [] \<and>
   compress ''in'' ''out'' \<lparr>files = [''in'' \<mapsto> []], unwritable = {}\<rparr> =
     (Inl EmptyInput, \<lparr>files = [''in'' \<mapsto> []], unwritable = {}\<rparr>) \<and>
   files (snd (compress ''in'' ''out'' \<lparr>files = [''in'' \<mapsto> []], unwritable = {}\<rparr>)) ''out'' = None"
proof -
  have h: "files \<lparr>files = [''in'' \<mapsto> []], unwritable = {}\<rparr> ''in'' = Some []" by simp
  show ?thesis using h C8_empty_input [OF h, of "''out''"] by simp
qed

subsection \<open>C9\<close>

text \<open>
  C9 as stated fails on the four-byte file \<open>00 00 00 01\<close>: it is shorter than 1025
  bytes, yet \<open>decompress\<close> reads the count 1 for byte value 0, reads nothing more
  (every further field is empty, which \<open>from_bytes\<close> takes as 0), builds the one-node
  tree, decodes the empty payload and writes an empty output file.
\<close>

theorem C9_short_file_counterexample:
  "decompress ''in'' ''out'' \<lparr>files = [''in'' \<mapsto> [0, 0, 0, 1]], unwritable = {}\<rparr> =
     (Inr (), \<lparr>files = [''in'' \<mapsto> [0, 0, 0, 1], ''out'' \<mapsto> []], unwritable = {}\<rparr>)"
proof -
  let ?input = "[0, 0, 0, 1 :: byte]"
  have s0: "stored_count ?input 0 = 1" by (simp add: stored_count_def from_bytes_def)
  have sz: "stored_count ?input b = 0" if "0 < b" for b
    using that by (simp add: stored_count_def from_bytes_def)
  have "[0..<256] = 0 # [1..<256]" by (simp add: upt_conv_Cons)
  then have "filter (\<lambda>(byte, fr). fr > 0) (map (\<lambda>b. (b, stored_count ?input b)) [0..<256]) =
             (0, 1) # filter (\<lambda>(byte, fr). fr > 0) (map (\<lambda>b. (b, stored_count ?input b)) [1..<256])"
    by (simp only: list.map filter.simps s0) simp
  also have "filter (\<lambda>(byte, fr). fr > 0) (map (\<lambda>b. (b, stored_count ?input b)) [1..<256]) = []"
    by (simp add: filter_empty_conv sz)
  finally have "build_huffman_tree (map (\<lambda>b. (b, stored_count ?input b)) [0..<256]) =
                Inr (Some (HuffmanNode (Some 0) 1 None None))"
    by (rule build_huffman_tree_single)
  then have "huffman_decode ?input = Inr []"
    by (simp only: huffman_decode_read) (simp add: from_bytes_def)
  then show ?thesis
    by (simp add: decompress_on_input)
qed

text \<open>
  C9, amended. \<open>decompress\<close> reports an invalid container, leaving the file system
  unchanged, exactly when the 256 counts it reads are all zero; a count field cut short
  by the end of the file is read from the bytes that are left.
\<close>

theorem C9_invalid_container:
  assumes "files s input_path = Some input"
  shows "decompress input_path output_path s = (Inl InvalidContainer, s) \<longleftrightarrow>
           (\<forall>b < 256. stored_count input b = 0)"
proof -
  have "decompress input_path output_path s = (Inl InvalidContainer, s) \<longleftrightarrow>
        huffman_decode input = Inl InvalidContainer"
    by (simp only: decompress_on_input [OF assms]) (auto split: sum.splits)
  then show ?thesis by (simp only: huffman_decode_InvalidContainer_iff)
qed

theorem C9_invalid_container_witness:
  "files \<lparr>files = [''in'' \<mapsto> replicate 2000 0], unwritable = {}\<rparr> ''in'' =
     Some (replicate 2000 0) \<and>
   stored_count (replicate 2000 0) 0 = 0 \<and> stored_count (replicate 2000 0) 255 = 0 \<and>
   decompress ''in'' ''out'' \<lparr>files = [''in'' \<mapsto> replicate 2000 0], unwritable = {}\<rparr> =
     (Inl InvalidContainer, \<lparr>files = [''in'' \<mapsto> replicate 2000 0], unwritable = {}\<rparr>)"
proof -
  let ?s = "\<lparr>files = [''in'' \<mapsto> replicate 2000 (0 :: byte)], unwritable = {}\<rparr>"
  have h: "files ?s ''in'' = Some (replicate 2000 0)" by simp
  have z: "\<forall>b < 256. stored_count (replicate 2000 0) b = 0"
  proof (intro allI impI)
    fix b :: nat assume "b < 256"
    then have "take 4 (drop (4 * b) (replicate 2000 (0 :: byte))) = replicate 4 0" by simp
    then show "stored_count (replicate 2000 0) b = 0"
      by (simp add: stored_count_def from_bytes_def eval_nat_numeral)
  qed
  from C9_invalid_container [OF h, of "''out''"] z
  have "decompress ''in'' ''out'' ?s = (Inl InvalidContainer, ?s)" by blast
  with h z show ?thesis by simp
qed

subsection \<open>C10\<close>

text \<open>
  C10. When the frequency table has two different byte values with a non-zero count,
  the tree is built, its root is unlabelled, every unlabelled node in it has two
  children (and every labelled node none), and the decoding walk of \<open>decompress\<close>
  started at the root never reads a field of \<open>None\<close>, whatever the bit sequence.
\<close>

theorem C10_decode_walk_safe:
  assumes "(k1, f1) \<in> set frequency" "(k2, f2) \<in> set frequency" "k1 \<noteq> k2" "0 < f1" "0 < f2"
  shows "\<exists>root. build_huffman_tree frequency = Inr (Some root) \<and>
           char root = None \<and> strict_binary root \<and>
           (\<forall>bits. decode_walk root root bits [] \<noteq> Inl AttributeError)"
proof -
  have len: "1 < length (filter (\<lambda>(byte, fr). fr > 0) frequency)"
    by (rule two_positive_items [OF assms])
  then have "filter (\<lambda>(byte, fr). fr > 0) frequency \<noteq> []" by auto
  from build_huffman_tree_Some [OF this] len obtain root where
    r: "build_huffman_tree frequency = Inr (Some root)" "strict_binary root" "char root = None"
    by blast
  then show ?thesis
    using decode_walk_no_AttributeError [OF r(2,3) r(2,3)] by blast
qed

theorem C10_decode_walk_safe_witness:
  "(65, 2) \<in> set [(65 :: nat, 2 :: nat), (66, 1)] \<and> (66, 1) \<in> set [(65 :: nat, 2 :: nat), (66, 1)] \<and>
   (65 :: nat) \<noteq> 66 \<and> (0 :: nat) < 2 \<and> (0 :: nat) < 1 \<and>
   (\<exists>root. build_huffman_tree [(65, 2), (66, 1)] = Inr (Some root) \<and>
      char root = None \<and> strict_binary root \<and>
      (\<forall>bits. decode_walk root root bits [] \<noteq> Inl AttributeError))"
proof -
  have h: "(65, 2) \<in> set [(65 :: nat, 2 :: nat), (66, 1)]"
    "(66, 1) \<in> set [(65 :: nat, 2 :: nat), (66, 1)]"
    "(65 :: nat) \<noteq> 66" "(0 :: nat) < 2" "(0 :: nat) < 1"
    by simp_all
  show ?thesis using h C10_decode_walk_safe [OF h] by simp
qed

end
